theory Spec2Isabelle
  imports Main "HOL-Library.Multiset"
begin

section \<open>Python strings\<close>

text \<open>
  A Python \<^verbatim>\<open>str\<close> is modelled as a \<^typ>\<open>string\<close>: each \<^typ>\<open>char\<close> stands for one
  character whose code point is below 256 (ASCII and the Latin-1 block), which is what
  \<^term>\<open>of_char\<close> reads. The character classes below are the ones CPython uses on these
  code points.
\<close>

definition code_point :: "char \<Rightarrow> nat" where
  "code_point c = of_char c"

text \<open>\<^verbatim>\<open>str.split()\<close> without a separator splits at the characters of \<^verbatim>\<open>str.isspace\<close>:
  TAB, LF, VT, FF, CR, the separators 0x1C to 0x1F, the space, NEL (0x85) and NBSP (0xA0).\<close>

definition is_space :: "char \<Rightarrow> bool" where
  "is_space c =
     (let n = code_point c
      in (9 \<le> n \<and> n \<le> 13) \<or> (28 \<le> n \<and> n \<le> 32) \<or> n = 133 \<or> n = 160)"

text \<open>\<^verbatim>\<open>str.isalpha\<close> on one character: the letters of ASCII and of Latin-1.\<close>

definition is_alpha :: "char \<Rightarrow> bool" where
  "is_alpha c =
     (let n = code_point c
      in (65 \<le> n \<and> n \<le> 90) \<or> (97 \<le> n \<and> n \<le> 122) \<or> n = 170 \<or> n = 181 \<or> n = 186
         \<or> (192 \<le> n \<and> n \<le> 214) \<or> (216 \<le> n \<and> n \<le> 246) \<or> (248 \<le> n \<and> n \<le> 255))"

text \<open>\<^verbatim>\<open>str.lower\<close> on one character: the capital letters move up by 32.\<close>

definition lower_char :: "char \<Rightarrow> char" where
  "lower_char c =
     (let n = code_point c
      in if (65 \<le> n \<and> n \<le> 90) \<or> (192 \<le> n \<and> n \<le> 214) \<or> (216 \<le> n \<and> n \<le> 222)
         then char_of (n + 32) else c)"

definition lower :: "string \<Rightarrow> string" where
  "lower s = map lower_char s"

text \<open>\<^verbatim>\<open>string.punctuation\<close>: the 32 ASCII punctuation characters.\<close>

definition is_punctuation :: "char \<Rightarrow> bool" where
  "is_punctuation c =
     (let n = code_point c
      in (33 \<le> n \<and> n \<le> 47) \<or> (58 \<le> n \<and> n \<le> 64) \<or> (91 \<le> n \<and> n \<le> 96)
         \<or> (123 \<le> n \<and> n \<le> 126))"

text \<open>\<^verbatim>\<open>str.isalpha\<close>: every character is a letter and there is at least one.\<close>

definition isalpha :: "string \<Rightarrow> bool" where
  "isalpha s = (s \<noteq> [] \<and> list_all is_alpha s)"

text \<open>
  Splitting at the characters of a class, empty pieces dropped. With \<^const>\<open>is_space\<close> this
  is \<^verbatim>\<open>str.split()\<close>; with the single space it is \<^verbatim>\<open>[i for i in text.split(' ') if i]\<close>.
\<close>

function split_at :: "(char \<Rightarrow> bool) \<Rightarrow> string \<Rightarrow> string list" where
  "split_at sep [] = []"
| "split_at sep (c # cs) =
     (if sep c then split_at sep cs
      else (c # takeWhile (\<lambda>x. \<not> sep x) cs) # split_at sep (dropWhile (\<lambda>x. \<not> sep x) cs))"
  by pat_completeness auto
termination
  by (relation "measure (\<lambda>(sep, s). length s)") (auto simp: length_dropWhile_le less_Suc_eq_le)

definition split_ws :: "string \<Rightarrow> string list" where
  "split_ws s = split_at is_space s"

text \<open>\<^verbatim>\<open>sep.join(parts)\<close>.\<close>

fun join :: "string \<Rightarrow> string list \<Rightarrow> string" where
  "join sep [] = []"
| "join sep [t] = t"
| "join sep (t # u # us) = t @ sep @ join sep (u # us)"

section \<open>Text normalizer\<close>

text \<open>
  The body of the inner loop of \<^verbatim>\<open>cleaning\<close>, applied to one caption: split at white
  space, lower-case, delete punctuation, keep the tokens longer than one character, keep
  the alphabetic ones, join with single spaces.
\<close>

definition clean_tokens :: "string \<Rightarrow> string list" where
  "clean_tokens caption =
     (let tmp = split_ws caption;
          tmp = map lower tmp;
          tmp = map (filter (\<lambda>c. \<not> is_punctuation c)) tmp;
          tmp = filter (\<lambda>t. length t > 1) tmp;
          tmp = filter isalpha tmp
      in tmp)"

definition clean_caption :: "string \<Rightarrow> string" where
  "clean_caption caption = join '' '' (clean_tokens caption)"

text \<open>
  A caption dictionary is a Python \<^verbatim>\<open>dict\<close> from photo identifier to caption list; it is
  kept as an association list in insertion order. \<^verbatim>\<open>cleaning\<close> overwrites every caption
  in place and returns \<^verbatim>\<open>None\<close>; the model returns the dictionary after the call.
\<close>

type_synonym caption_dict = "(string \<times> string list) list"

definition cleaning :: "caption_dict \<Rightarrow> caption_dict" where
  "cleaning caption_dict = map (\<lambda>(photo_id, caption_list). (photo_id, map clean_caption caption_list)) caption_dict"

section \<open>Exceptions\<close>

datatype error = IndexError | KeyError | ValueError | ZeroDivisionError

section \<open>The Keras tokenizer and sequence utilities\<close>

text \<open>
  The default filter of \<^verbatim>\<open>Tokenizer\<close>: the punctuation without the apostrophe, TAB and LF.
\<close>

definition is_filter :: "char \<Rightarrow> bool" where
  "is_filter c =
     (let n = code_point c in (is_punctuation c \<and> n \<noteq> 39) \<or> n = 9 \<or> n = 10)"

text \<open>
  \<^verbatim>\<open>text_to_word_sequence\<close>: lower-case, turn every filtered character into a space, split at
  the single space and drop the empty pieces.
\<close>

definition text_to_word_sequence :: "string \<Rightarrow> string list" where
  "text_to_word_sequence text =
     split_at (\<lambda>c. c = CHR '' '')
       (map (\<lambda>c. if is_filter c then CHR '' '' else c) (lower text))"

record tokenizer =
  num_words :: "int option"
  word_counts :: "(string \<times> nat) list"
  word_index :: "(string \<times> nat) list"
  index_word :: "(nat \<times> string) list"

definition Tokenizer :: "int option \<Rightarrow> tokenizer" where
  "Tokenizer n = \<lparr>num_words = n, word_counts = [], word_index = [], index_word = []\<rparr>"

text \<open>One more occurrence of a word in the insertion-ordered \<^verbatim>\<open>word_counts\<close>.\<close>

fun count_word :: "(string \<times> nat) list \<Rightarrow> string \<Rightarrow> (string \<times> nat) list" where
  "count_word [] w = [(w, 1)]"
| "count_word ((k, c) # kcs) w = (if k = w then (k, c + 1) # kcs else (k, c) # count_word kcs w)"

text \<open>
  \<^verbatim>\<open>fit_on_texts\<close>: count every word of every text, sort the words by falling count
  (Python's sort is stable, so equal counts keep their order of first appearance) and
  number them from 1.
\<close>

definition fit_on_texts :: "tokenizer \<Rightarrow> string list \<Rightarrow> tokenizer" where
  "fit_on_texts tok texts =
     (let wc = foldl count_word (word_counts tok) (concat (map text_to_word_sequence texts));
          wcounts = sort_key (\<lambda>(w, c). - int c) wc;
          sorted_voc = map fst wcounts;
          wi = zip sorted_voc [1 ..< Suc (length sorted_voc)]
      in tok\<lparr>word_counts := wc, word_index := wi, index_word := map (\<lambda>(w, c). (c, w)) wi\<rparr>)"

text \<open>
  \<^verbatim>\<open>texts_to_sequences([text])[0]\<close>, the loop over the words of one text. No
  \<^verbatim>\<open>oov_token\<close> is set, so a word without an index is skipped, and so is a word whose
  index is not below a non-zero \<^verbatim>\<open>num_words\<close>.
\<close>

fun encode_words :: "tokenizer \<Rightarrow> string list \<Rightarrow> nat list" where
  "encode_words tok [] = []"
| "encode_words tok (w # ws) =
     (case map_of (word_index tok) w of
        None \<Rightarrow> encode_words tok ws
      | Some i \<Rightarrow>
          (case num_words tok of
             None \<Rightarrow> i # encode_words tok ws
           | Some nw \<Rightarrow>
               if nw \<noteq> 0 \<and> int i \<ge> nw then encode_words tok ws
               else i # encode_words tok ws))"

definition texts_to_sequences :: "tokenizer \<Rightarrow> string \<Rightarrow> nat list" where
  "texts_to_sequences tok text = encode_words tok (text_to_word_sequence text)"

text \<open>
  \<^verbatim>\<open>pad_sequences([s], maxlen=maxlen, padding='pre')[0]\<close>, with the default
  \<^verbatim>\<open>truncating='pre'\<close> and \<^verbatim>\<open>value=0\<close>. The result array has \<^verbatim>\<open>maxlen\<close> cells (a negative
  size is refused); an empty sequence leaves it untouched; otherwise \<^verbatim>\<open>s[-maxlen:]\<close> is
  written to the right end of the row. With \<^verbatim>\<open>maxlen = 0\<close> the slice \<^verbatim>\<open>s[-0:]\<close> is the
  whole of \<^verbatim>\<open>s\<close>, which fits the empty row only by broadcasting a single element.
\<close>

definition pad_sequences :: "nat list \<Rightarrow> int \<Rightarrow> error + nat list" where
  "pad_sequences s maxlen =
     (if maxlen < 0 then Inl ValueError
      else if s = [] then Inr (replicate (nat maxlen) 0)
      else
        let trunc = (if maxlen = 0 then s else drop (length s - nat maxlen) s)
        in if length trunc \<le> nat maxlen
           then Inr (replicate (nat maxlen - length trunc) 0 @ trunc)
           else if length trunc = 1 then Inr (replicate (nat maxlen) 0)
           else Inl ValueError)"

definition one_hot :: "nat \<Rightarrow> nat \<Rightarrow> nat list" where
  "one_hot num_classes v = map (\<lambda>j. if j = v then 1 else 0) [0 ..< num_classes]"

text \<open>
  \<^verbatim>\<open>to_categorical(y, num_classes=num_classes)\<close> on a vector of ids: a falsy
  \<^verbatim>\<open>num_classes\<close> is replaced by the largest id plus one, a negative one is no array
  size, and an id that is not below \<^verbatim>\<open>num_classes\<close> is an index out of bounds.
\<close>

definition to_categorical :: "nat list \<Rightarrow> int \<Rightarrow> error + nat list list" where
  "to_categorical y num_classes =
     (if num_classes = 0 then
        (if y = [] then Inl ValueError else Inr (map (one_hot (Suc (Max (set y)))) y))
      else if num_classes < 0 then Inl ValueError
      else if \<exists>v\<in>set y. int v \<ge> num_classes then Inl IndexError
      else Inr (map (one_hot (nat num_classes)) y))"

section \<open>Vocabulary builder\<close>

definition caption_to_list :: "caption_dict \<Rightarrow> string list" where
  "caption_to_list caption_dict = concat (map snd caption_dict)"

definition create_tokenizer :: "caption_dict \<Rightarrow> int option \<Rightarrow> tokenizer" where
  "create_tokenizer caption_dict num_vocab =
     fit_on_texts (Tokenizer num_vocab) (caption_to_list caption_dict)"

text \<open>
  The vocabulary computation of the main module: fit a tokenizer, collect the words
  counted at least \<^verbatim>\<open>min_freq\<close> times, add one for index zero and fit a tokenizer limited
  to that size. The result is the final tokenizer, \<^verbatim>\<open>vocab_size\<close> and \<^verbatim>\<open>words\<close>.
\<close>

definition build_vocabulary :: "caption_dict \<Rightarrow> int \<Rightarrow> tokenizer \<times> int \<times> string list" where
  "build_vocabulary train_caption_dict min_freq =
     (let tokenizer = create_tokenizer train_caption_dict None;
          words = map fst (filter (\<lambda>(word, count). int count \<ge> min_freq) (word_counts tokenizer));
          vocab_size = int (length words) + 1;
          tokenizer = create_tokenizer train_caption_dict (Some vocab_size)
      in (tokenizer, vocab_size, words))"

section \<open>Batch generator\<close>

text \<open>
  The two calls of \<^verbatim>\<open>np.random.choice\<close> read and advance NumPy's global generator. Its
  state is passed explicitly: \<open>choice_perm r n\<close> stands for
  \<^verbatim>\<open>np.random.choice(np.arange(n), size=n, replace=False)\<close> and \<open>choice_one r n\<close> for
  \<^verbatim>\<open>np.random.choice(np.arange(n), size=1, replace=True)[0]\<close> with \<open>n > 0\<close>; both return
  the draw and the state after it. They are parameters of the model.

  The feature store maps a photo identifier to an array of rows (one row of 4096 numbers
  in the source); a row is a value of the type \<open>'f\<close>.

  A batch is the three accumulators of the source. The field \<open>photos\<close> is not yielded by
  the source: it records the photo identifier behind each position, so that statements
  about a batch can name it.
\<close>

record 'f batch =
  photos :: "string list"
  X_img :: "'f list"
  X_text :: "nat list list"
  Y :: "nat list list list"

definition empty_batch :: "'f batch" where
  "empty_batch = \<lparr>photos = [], X_img = [], X_text = [], Y = []\<rparr>"

text \<open>
  Lines 265 to 281 of the source: the training example of position \<open>counter\<close> (the
  source's \<^verbatim>\<open>count\<close>) of the random sequence \<open>s\<close>. The result is the photo identifier,
  the feature row, the padded input, the one-hot padded target and the generator state
  after the caption draw.
\<close>

definition make_example ::
  "('r \<Rightarrow> nat \<Rightarrow> nat \<times> 'r) \<Rightarrow> caption_dict \<Rightarrow> (string \<times> 'f list) list \<Rightarrow> tokenizer \<Rightarrow> int \<Rightarrow> int \<Rightarrow>
   string list \<Rightarrow> nat list \<Rightarrow> nat \<Rightarrow> 'r \<Rightarrow> error + ((string \<times> 'f \<times> nat list \<times> nat list list) \<times> 'r)" where
  "make_example choice_one caption_dict features tokenizer max_length vocab_size photo_ids s counter r =
     (if counter \<ge> length s then Inl IndexError
      else let s1 = s ! counter in
      if s1 \<ge> length photo_ids then Inl IndexError
      else let photo_id = photo_ids ! s1 in
      case map_of caption_dict photo_id of
        None \<Rightarrow> Inl KeyError
      | Some caption_list \<Rightarrow>
          if caption_list = [] then Inl ValueError
          else let (s2, r1) = choice_one r (length caption_list) in
          if s2 \<ge> length caption_list then Inl IndexError
          else let caption = caption_list ! s2;
                   encoded = texts_to_sequences tokenizer caption;
                   tmp_text = butlast encoded;
                   tmp_Y = tl encoded in
          case pad_sequences tmp_text max_length of
            Inl e \<Rightarrow> Inl e
          | Inr padded_text \<Rightarrow>
              (case pad_sequences tmp_Y max_length of
                 Inl e \<Rightarrow> Inl e
               | Inr padded_Y \<Rightarrow>
                   (case to_categorical padded_Y vocab_size of
                      Inl e \<Rightarrow> Inl e
                    | Inr padded_Y \<Rightarrow>
                        (case map_of features photo_id of
                           None \<Rightarrow> Inl KeyError
                         | Some feature \<Rightarrow>
                             (case feature of
                                [] \<Rightarrow> Inl IndexError
                              | row # _ \<Rightarrow> Inr ((photo_id, row, padded_text, padded_Y), r1))))))"

text \<open>
  The inner \<^verbatim>\<open>while 1\<close> of \<^verbatim>\<open>generate_dataset\<close>, from the value \<open>counter\<close> of \<^verbatim>\<open>count\<close>
  with the accumulators \<open>acc\<close>. \<open>out\<close> collects the batches yielded so far; the result is
  the batches yielded by the pass and how it ended: with an exception, or at the
  \<^verbatim>\<open>break\<close> with the generator state reached.
\<close>

function inner_loop ::
  "('r \<Rightarrow> nat \<Rightarrow> nat \<times> 'r) \<Rightarrow> caption_dict \<Rightarrow> (string \<times> 'f list) list \<Rightarrow> tokenizer \<Rightarrow> int \<Rightarrow> int \<Rightarrow> int \<Rightarrow>
   string list \<Rightarrow> nat list \<Rightarrow> nat \<Rightarrow> 'f batch \<Rightarrow> 'f batch list \<Rightarrow> 'r \<Rightarrow> 'f batch list \<times> (error + 'r)" where
  "inner_loop choice_one caption_dict features tokenizer max_length vocab_size num_photos photo_ids s counter acc out r =
     (case make_example choice_one caption_dict features tokenizer max_length vocab_size photo_ids s counter r of
        Inl e \<Rightarrow> (out, Inl e)
      | Inr ((photo_id, row, padded_text, padded_Y), r1) \<Rightarrow>
          let acc1 = \<lparr>photos = photos acc @ [photo_id], X_img = X_img acc @ [row],
                      X_text = X_text acc @ [padded_text], Y = Y acc @ [padded_Y]\<rparr>;
              counter1 = counter + 1
          in if num_photos = 0 then (out, Inl ZeroDivisionError)
             else let (acc2, out2) = (if int counter1 mod num_photos = 0 then (empty_batch, out @ [acc1])
                                      else (acc1, out))
             in if counter1 \<ge> length photo_ids
                then ((if length (Y acc2) > 0 then out2 @ [acc2] else out2), Inr r1)
                else inner_loop choice_one caption_dict features tokenizer max_length vocab_size num_photos
                       photo_ids s counter1 acc2 out2 r1)"
  by pat_completeness auto
termination
  by (relation "measure (\<lambda>(choice_one, caption_dict, features, tokenizer, max_length, vocab_size,
        num_photos, photo_ids, s, counter, acc, out, r). length photo_ids - counter)") auto

text \<open>One pass of the outer loop: draw the random sequence, then run the inner loop.\<close>

definition epoch ::
  "('r \<Rightarrow> nat \<Rightarrow> nat list \<times> 'r) \<Rightarrow> ('r \<Rightarrow> nat \<Rightarrow> nat \<times> 'r) \<Rightarrow> caption_dict \<Rightarrow> (string \<times> 'f list) list \<Rightarrow>
   tokenizer \<Rightarrow> int \<Rightarrow> int \<Rightarrow> int \<Rightarrow> string list \<Rightarrow> 'r \<Rightarrow> 'f batch list \<times> (error + 'r)" where
  "epoch choice_perm choice_one caption_dict features tokenizer max_length vocab_size num_photos photo_ids r =
     (let (s, r0) = choice_perm r (length photo_ids)
      in inner_loop choice_one caption_dict features tokenizer max_length vocab_size num_photos
           photo_ids s 0 empty_batch [] r0)"

text \<open>
  The outer \<^verbatim>\<open>while 1\<close> never ends by itself: \<open>run_epochs k\<close> is its first \<open>k\<close> passes,
  each with the batches it yielded, stopped early by an exception.
\<close>

fun run_epochs ::
  "nat \<Rightarrow> ('r \<Rightarrow> nat \<Rightarrow> nat list \<times> 'r) \<Rightarrow> ('r \<Rightarrow> nat \<Rightarrow> nat \<times> 'r) \<Rightarrow> caption_dict \<Rightarrow> (string \<times> 'f list) list \<Rightarrow>
   tokenizer \<Rightarrow> int \<Rightarrow> int \<Rightarrow> int \<Rightarrow> string list \<Rightarrow> 'r \<Rightarrow> 'f batch list list \<times> (error + 'r)" where
  "run_epochs 0 choice_perm choice_one caption_dict features tokenizer max_length vocab_size num_photos photo_ids r =
     ([], Inr r)"
| "run_epochs (Suc k) choice_perm choice_one caption_dict features tokenizer max_length vocab_size num_photos photo_ids r =
     (case epoch choice_perm choice_one caption_dict features tokenizer max_length vocab_size num_photos photo_ids r of
        (bs, Inl e) \<Rightarrow> ([bs], Inl e)
      | (bs, Inr r1) \<Rightarrow>
          (case run_epochs k choice_perm choice_one caption_dict features tokenizer max_length vocab_size
                  num_photos photo_ids r1 of
             (eps, res) \<Rightarrow> (bs # eps, res)))"

definition generate_dataset ::
  "nat \<Rightarrow> ('r \<Rightarrow> nat \<Rightarrow> nat list \<times> 'r) \<Rightarrow> ('r \<Rightarrow> nat \<Rightarrow> nat \<times> 'r) \<Rightarrow> caption_dict \<Rightarrow> (string \<times> 'f list) list \<Rightarrow>
   tokenizer \<Rightarrow> int \<Rightarrow> int \<Rightarrow> int \<Rightarrow> 'r \<Rightarrow> 'f batch list list \<times> (error + 'r)" where
  "generate_dataset k choice_perm choice_one caption_dict features tokenizer max_length vocab_size num_photos r =
     (let photo_ids = map fst caption_dict
      in run_epochs k choice_perm choice_one caption_dict features tokenizer max_length vocab_size
           num_photos photo_ids r)"

section \<open>Decoder\<close>

text \<open>
  \<^verbatim>\<open>s.replace(old, new)\<close>: the occurrences of \<open>old\<close> are replaced from left to right,
  without overlap; an empty \<open>old\<close> matches before every character and at the end.
\<close>

function str_replace :: "string \<Rightarrow> string \<Rightarrow> string \<Rightarrow> string" where
  "str_replace old new s =
     (if old = [] then new @ concat (map (\<lambda>c. c # new) s)
      else if s = [] then []
      else if take (length old) s = old then new @ str_replace old new (drop (length old) s)
      else hd s # str_replace old new (tl s))"
  by pat_completeness auto
termination
  by (relation "measure (\<lambda>(old, new, s). length s)") auto

text \<open>\<^verbatim>\<open>argmax\<close> of a non-empty vector: the first position of its largest entry.\<close>

fun argmax_from :: "'p::linorder \<Rightarrow> nat \<Rightarrow> nat \<Rightarrow> 'p list \<Rightarrow> nat" where
  "argmax_from best best_i i [] = best_i"
| "argmax_from best best_i i (x # xs) =
     (if best < x then argmax_from x i (i + 1) xs else argmax_from best best_i (i + 1) xs)"

definition argmax :: "'p::linorder list \<Rightarrow> error + nat" where
  "argmax v = (case v of [] \<Rightarrow> Inl ValueError | x # xs \<Rightarrow> Inr (argmax_from x 0 1 xs))"

text \<open>
  The sequence model is a parameter: \<open>model feature padded\<close> stands for
  \<^verbatim>\<open>model.predict([feature, padded])[0]\<close>, one score vector per time step, with scores of
  any linearly ordered type. \<^verbatim>\<open>[-1, :]\<close> selects the last of them.

  The \<^verbatim>\<open>while 1\<close> of \<^verbatim>\<open>sample_caption\<close> can run forever, so the loop carries fuel, one
  unit for each pass; \<open>None\<close> says that the fuel ran out. The result of the loop is the
  caption at the \<^verbatim>\<open>break\<close>, or the exception raised.
\<close>

fun sample_loop ::
  "nat \<Rightarrow> ('f \<Rightarrow> nat list \<Rightarrow> 'p::linorder list list) \<Rightarrow> tokenizer \<Rightarrow> int \<Rightarrow> 'f \<Rightarrow> string \<Rightarrow> (error + string) option" where
  "sample_loop 0 model tokenizer max_length feature caption = None"
| "sample_loop (Suc fuel) model tokenizer max_length feature caption =
     (let encoded = texts_to_sequences tokenizer caption in
      case pad_sequences encoded max_length of
        Inl e \<Rightarrow> Some (Inl e)
      | Inr padded \<Rightarrow>
          (case model feature padded of
             [] \<Rightarrow> Some (Inl IndexError)
           | t # ts \<Rightarrow>
               (case argmax (last (t # ts)) of
                  Inl e \<Rightarrow> Some (Inl e)
                | Inr k \<Rightarrow>
                    (case map_of (index_word tokenizer) k of
                       None \<Rightarrow> Some (Inl KeyError)
                     | Some next_word \<Rightarrow>
                         let caption = caption @ '' '' @ next_word
                         in if next_word = ''endseq'' \<or> int (length (split_ws caption)) \<ge> max_length
                            then Some (Inr caption)
                            else sample_loop fuel model tokenizer max_length feature caption))))"

definition sample_caption ::
  "nat \<Rightarrow> ('f \<Rightarrow> nat list \<Rightarrow> 'p::linorder list list) \<Rightarrow> tokenizer \<Rightarrow> int \<Rightarrow> int \<Rightarrow> 'f \<Rightarrow> (error + string) option" where
  "sample_caption fuel model tokenizer max_length vocab_size feature =
     (case sample_loop fuel model tokenizer max_length feature ''startseq'' of
        None \<Rightarrow> None
      | Some (Inl e) \<Rightarrow> Some (Inl e)
      | Some (Inr caption) \<Rightarrow>
          let caption = str_replace ''startseq '' [] caption;
              caption = str_replace '' endseq'' [] caption
          in Some (Inr caption))"

section \<open>Vocabulary membership\<close>

text \<open>
  The spec's notion of an in-vocabulary token, in its own words: a token that has an id
  and whose id is within the size limit of the vocabulary. It is compared with the
  encoding loop below.
\<close>

definition in_vocabulary :: "tokenizer \<Rightarrow> string \<Rightarrow> bool" where
  "in_vocabulary tok w =
     (case map_of (word_index tok) w of
        None \<Rightarrow> False
      | Some i \<Rightarrow> (case num_words tok of None \<Rightarrow> True | Some nw \<Rightarrow> nw = 0 \<or> int i < nw))"

definition token_id :: "tokenizer \<Rightarrow> string \<Rightarrow> nat" where
  "token_id tok w = (case map_of (word_index tok) w of None \<Rightarrow> 0 | Some i \<Rightarrow> i)"

section \<open>Reading batches\<close>

text \<open>
  The batch sizes the spec expects from a pass over \<open>n\<close> photos with batch size \<open>k\<close>, in
  its own words: \<open>n div k\<close> full batches and a last one of \<open>n mod k\<close> examples if any
  remain. It is compared with the inner loop below.
\<close>

definition expected_batch_sizes :: "nat \<Rightarrow> nat \<Rightarrow> nat list" where
  "expected_batch_sizes n k = replicate (n div k) k @ (if n mod k = 0 then [] else [n mod k])"

text \<open>
  \<open>batch_ok Q b\<close>: the accumulators of the batch \<open>b\<close> have one length, and \<open>Q\<close> holds of the
  photo identifier, feature row, padded input and one-hot target at every position.
\<close>

definition batch_ok :: "(string \<Rightarrow> 'f \<Rightarrow> nat list \<Rightarrow> nat list list \<Rightarrow> bool) \<Rightarrow> 'f batch \<Rightarrow> bool" where
  "batch_ok Q b =
     (length (photos b) = length (Y b) \<and> length (X_img b) = length (Y b) \<and>
      length (X_text b) = length (Y b) \<and>
      (\<forall>j < length (Y b). Q (photos b ! j) (X_img b ! j) (X_text b ! j) (Y b ! j)))"

section \<open>Counting tokens\<close>

text \<open>
  The number of tokens of a text, counted in one pass: \<open>in_word\<close> says whether the
  character before the text belongs to a token. It is shown below to be the length of
  \<^const>\<open>split_at\<close>.
\<close>

fun count_tokens :: "(char \<Rightarrow> bool) \<Rightarrow> bool \<Rightarrow> string \<Rightarrow> nat" where
  "count_tokens sep in_word [] = 0"
| "count_tokens sep in_word (c # cs) =
     (if sep c then count_tokens sep False cs
      else (if in_word then 0 else 1) + count_tokens sep True cs)"

section \<open>Sample data\<close>

text \<open>
  A small training set for the concrete runs below: two photos with one wrapped caption
  each, and the tokenizer that the main module builds from it with \<^verbatim>\<open>min_freq = 2\<close>.
\<close>

definition sample_dict :: caption_dict where
  "sample_dict = [(''p1'', [''startseq dog runs endseq'']), (''p2'', [''startseq dog runs endseq''])]"

definition sample_tokenizer :: tokenizer where
  "sample_tokenizer = fst (build_vocabulary sample_dict 2)"

section \<open>Facts about characters and splitting\<close>

lemma code_point_char_of: "n < 256 \<Longrightarrow> code_point (char_of n) = n"
  by (simp add: code_point_def)

lemma is_alpha_not_space: "is_alpha c \<Longrightarrow> \<not> is_space c"
  by (auto simp: is_alpha_def is_space_def Let_def)

lemma is_alpha_not_punctuation: "is_alpha c \<Longrightarrow> \<not> is_punctuation c"
  by (auto simp: is_alpha_def is_punctuation_def Let_def)

lemma lower_char_idem: "lower_char (lower_char c) = lower_char c"
  by (auto simp: lower_char_def Let_def code_point_char_of)

lemma lower_filter_lower: "lower (filter P (lower s)) = filter P (lower s)"
  by (induction s) (auto simp: lower_def lower_char_idem)

lemma space_is_space: "is_space CHR '' ''"
  by (simp add: is_space_def code_point_def)

lemma split_at_token:
  assumes "t \<noteq> []" "\<forall>c\<in>set t. \<not> sep c" "rest = [] \<or> sep (hd rest)"
  shows "split_at sep (t @ rest) = t # split_at sep rest"
proof -
  obtain c cs where t: "t = c # cs" using assms(1) by (cases t) auto
  have tw: "takeWhile (\<lambda>x. \<not> sep x) (cs @ rest) = cs"
    using assms(2,3) unfolding t by (cases rest) auto
  have dw: "dropWhile (\<lambda>x. \<not> sep x) (cs @ rest) = rest"
    using assms(2,3) unfolding t by (cases rest) auto
  show ?thesis using assms(2) unfolding t by (simp add: tw dw)
qed

lemma split_at_join:
  assumes "\<forall>t\<in>set ts. t \<noteq> [] \<and> (\<forall>c\<in>set t. \<not> sep c)" "sep s"
  shows "split_at sep (join [s] ts) = ts"
  using assms
proof (induction "[s]" ts rule: join.induct)
  case 1
  then show ?case by simp
next
  case (2 t)
  then show ?case using split_at_token[of t sep "[]"] by simp
next
  case (3 t u us)
  then show ?case using split_at_token[of t sep "s # join [s] (u # us)"] by simp
qed

text \<open>The definitions that evaluate the character classes on a concrete text.\<close>

lemmas char_eval = code_point_def is_space_def is_alpha_def lower_char_def lower_def
  is_punctuation_def isalpha_def is_filter_def Let_def

section \<open>Text normalizer: idempotence and frame\<close>

lemma clean_tokens_clean:
  assumes "t \<in> set (clean_tokens caption)"
  shows "lower t = t \<and> (\<forall>c\<in>set t. \<not> is_punctuation c) \<and> length t > 1 \<and> isalpha t"
  using assms by (auto simp: clean_tokens_def lower_filter_lower)

lemma clean_tokens_fixed:
  assumes "\<forall>t\<in>set ts. lower t = t \<and> (\<forall>c\<in>set t. \<not> is_punctuation c) \<and> length t > 1 \<and> isalpha t"
  shows "clean_tokens (join '' '' ts) = ts"
proof -
  have "\<forall>t\<in>set ts. t \<noteq> [] \<and> (\<forall>c\<in>set t. \<not> is_space c)"
    using assms by (auto simp: isalpha_def list_all_iff is_alpha_not_space)
  then have sp: "split_ws (join '' '' ts) = ts"
    unfolding split_ws_def using split_at_join[of ts is_space "CHR '' ''"] space_is_space by simp
  have l: "map lower ts = ts" using assms by (simp add: map_idI)
  have p: "map (filter (\<lambda>c. \<not> is_punctuation c)) ts = ts"
    using assms by (intro map_idI) (simp add: filter_id_conv)
  have f1: "filter (\<lambda>t. length t > 1) ts = ts" using assms by (simp add: filter_id_conv)
  have f2: "filter isalpha ts = ts" using assms by (simp add: filter_id_conv)
  show ?thesis unfolding clean_tokens_def Let_def by (simp only: sp l p f1 f2)
qed

lemma clean_caption_idem: "clean_caption (clean_caption caption) = clean_caption caption"
  using clean_tokens_fixed[of "clean_tokens caption"] clean_tokens_clean[of _ caption]
  by (simp add: clean_caption_def)

lemma split_ws_clean_caption: "split_ws (clean_caption caption) = clean_tokens caption"
proof -
  have "\<forall>t\<in>set (clean_tokens caption). t \<noteq> [] \<and> (\<forall>c\<in>set t. \<not> is_space c)"
    using clean_tokens_clean[of _ caption] by (auto simp: isalpha_def list_all_iff is_alpha_not_space)
  then show ?thesis
    unfolding split_ws_def clean_caption_def
    using split_at_join[of "clean_tokens caption" is_space "CHR '' ''"] space_is_space by simp
qed

text \<open>
  C8. Cleaning is idempotent: cleaning a cleaned caption dictionary changes nothing, and
  every token of a cleaned caption is lower-case, alphabetic, free of punctuation and
  longer than one character.
\<close>

theorem cleaning_idempotent:
  "cleaning (cleaning caption_dict) = cleaning caption_dict \<and>
   (\<forall>(photo_id, caption_list) \<in> set (cleaning caption_dict). \<forall>caption \<in> set caption_list.
      \<forall>t \<in> set (split_ws caption).
        lower t = t \<and> isalpha t \<and> (\<forall>c\<in>set t. \<not> is_punctuation c) \<and> length t > 1)"
proof
  show "cleaning (cleaning caption_dict) = cleaning caption_dict"
    by (induction caption_dict) (auto simp: cleaning_def clean_caption_idem)
next
  show "\<forall>(photo_id, caption_list) \<in> set (cleaning caption_dict). \<forall>caption \<in> set caption_list.
      \<forall>t \<in> set (split_ws caption).
        lower t = t \<and> isalpha t \<and> (\<forall>c\<in>set t. \<not> is_punctuation c) \<and> length t > 1"
    using clean_tokens_clean by (auto simp: cleaning_def split_ws_clean_caption)
qed

theorem cleaning_idempotent_witness:
  "cleaning (cleaning [(''p1'', [''a dog, runs 2 the park!''])]) = [(''p1'', [''dog runs the park''])] \<and>
   ''park'' \<in> set (split_ws ''dog runs the park'') \<and>
   lower ''park'' = ''park'' \<and> isalpha ''park'' \<and> length ''park'' > 1"
proof -
  have c: "cleaning [(''p1'', [''a dog, runs 2 the park!''])] = [(''p1'', [''dog runs the park''])]"
    by (simp add: cleaning_def clean_caption_def clean_tokens_def split_ws_def char_eval)
  have t: "''park'' \<in> set (split_ws ''dog runs the park'')"
    by (simp add: split_ws_def char_eval)
  from cleaning_idempotent[of "[(''p1'', [''a dog, runs 2 the park!''])]"] c t
  show ?thesis by auto
qed

text \<open>
  C9. Cleaning keeps the photo identifiers, in their order, and the number of captions of
  every photo; the caption at each position is the cleaned form of the caption that was
  there, and a caption that loses all its tokens stays in its place as the empty string.
\<close>

theorem cleaning_preserves_frame:
  "map fst (cleaning caption_dict) = map fst caption_dict \<and>
   map (\<lambda>(photo_id, caption_list). length caption_list) (cleaning caption_dict) =
     map (\<lambda>(photo_id, caption_list). length caption_list) caption_dict \<and>
   (\<forall>i < length caption_dict. \<forall>j < length (snd (caption_dict ! i)).
      snd (cleaning caption_dict ! i) ! j = clean_caption (snd (caption_dict ! i) ! j) \<and>
      (clean_tokens (snd (caption_dict ! i) ! j) = [] \<longrightarrow> snd (cleaning caption_dict ! i) ! j = []))"
proof (intro conjI allI impI)
  show "map fst (cleaning caption_dict) = map fst caption_dict"
    by (induction caption_dict) (auto simp: cleaning_def)
  show "map (\<lambda>(photo_id, caption_list). length caption_list) (cleaning caption_dict) =
     map (\<lambda>(photo_id, caption_list). length caption_list) caption_dict"
    by (induction caption_dict) (auto simp: cleaning_def)
next
  fix i j
  assume i: "i < length caption_dict" and j: "j < length (snd (caption_dict ! i))"
  then show c: "snd (cleaning caption_dict ! i) ! j = clean_caption (snd (caption_dict ! i) ! j)"
    by (simp add: cleaning_def case_prod_unfold)
  assume "clean_tokens (snd (caption_dict ! i) ! j) = []"
  then show "snd (cleaning caption_dict ! i) ! j = []"
    using c by (simp add: clean_caption_def)
qed

theorem cleaning_preserves_frame_witness:
  "map fst (cleaning [(''p1'', [''a dog!'', ''1 2 .''])]) = [''p1''] \<and>
   map (\<lambda>(photo_id, caption_list). length caption_list) (cleaning [(''p1'', [''a dog!'', ''1 2 .''])]) = [2] \<and>
   clean_tokens ''1 2 .'' = [] \<and>
   snd (cleaning [(''p1'', [''a dog!'', ''1 2 .''])] ! 0) ! 1 = []"
proof -
  let ?d = "[(''p1'', [''a dog!'', ''1 2 .''])]"
  have e: "clean_tokens ''1 2 .'' = []"
    by (simp add: clean_tokens_def split_ws_def char_eval)
  note th = cleaning_preserves_frame[of ?d]
  have "snd (cleaning ?d ! 0) ! 1 = []"
    using th[THEN conjunct2, THEN conjunct2, rule_format, of 0 1, THEN conjunct2] e by simp
  moreover have "map fst (cleaning ?d) = [''p1'']"
    using th[THEN conjunct1] by simp
  moreover have "map (\<lambda>(photo_id, caption_list). length caption_list) (cleaning ?d) = [2]"
    using th[THEN conjunct2, THEN conjunct1] by simp
  ultimately show ?thesis using e by simp
qed

section \<open>Vocabulary builder and encoding\<close>

lemma build_vocabulary_example:
  "build_vocabulary [(''p1'', [''a dog runs'', ''a dog runs fast''])] 2 =
     (\<lparr>num_words = Some 4,
       word_counts = [(''a'', 2), (''dog'', 2), (''runs'', 2), (''fast'', 1)],
       word_index = [(''a'', 1), (''dog'', 2), (''runs'', 3), (''fast'', 4)],
       index_word = [(1, ''a''), (2, ''dog''), (3, ''runs''), (4, ''fast'')]\<rparr>,
      4, [''a'', ''dog'', ''runs''])"
  by (simp add: build_vocabulary_def create_tokenizer_def caption_to_list_def fit_on_texts_def
      Tokenizer_def text_to_word_sequence_def char_eval upt_rec)

lemma words_example: "text_to_word_sequence ''a dog runs fast'' = [''a'', ''dog'', ''runs'', ''fast'']"
  by (simp add: text_to_word_sequence_def char_eval)

lemma encode_words_filter:
  "encode_words tok ws = map (token_id tok) (filter (in_vocabulary tok) ws)"
  by (induction ws) (auto simp: in_vocabulary_def token_id_def split: option.splits)

text \<open>
  C7. Encoding a caption keeps exactly its in-vocabulary tokens, in order, as their ids;
  the tokens outside the vocabulary leave no trace. The encoding is a total function: it
  has no failing branch.
\<close>

theorem encoding_drops_out_of_vocabulary:
  "texts_to_sequences tok caption =
     map (token_id tok) (filter (in_vocabulary tok) (text_to_word_sequence caption)) \<and>
   (\<forall>w \<in> set (text_to_word_sequence caption). \<not> in_vocabulary tok w \<longrightarrow>
      texts_to_sequences tok caption =
        map (token_id tok) (filter (in_vocabulary tok) (removeAll w (text_to_word_sequence caption))))"
proof -
  have "filter (in_vocabulary tok) (removeAll w ws) = filter (in_vocabulary tok) ws"
    if "\<not> in_vocabulary tok w" for w ws
    using that by (induction ws) auto
  then show ?thesis
    by (simp add: texts_to_sequences_def encode_words_filter)
qed

theorem encoding_drops_out_of_vocabulary_witness:
  "text_to_word_sequence ''a dog runs fast'' = [''a'', ''dog'', ''runs'', ''fast''] \<and>
   \<not> in_vocabulary (fst (build_vocabulary [(''p1'', [''a dog runs'', ''a dog runs fast''])] 2)) ''fast'' \<and>
   texts_to_sequences (fst (build_vocabulary [(''p1'', [''a dog runs'', ''a dog runs fast''])] 2))
     ''a dog runs fast'' = [1, 2, 3]"
proof -
  let ?tok = "fst (build_vocabulary [(''p1'', [''a dog runs'', ''a dog runs fast''])] 2)"
  have n: "\<not> in_vocabulary ?tok ''fast''"
    by (simp add: build_vocabulary_example in_vocabulary_def)
  have m: "map (token_id ?tok) (filter (in_vocabulary ?tok) [''a'', ''dog'', ''runs'', ''fast'']) = [1, 2, 3]"
    by (simp add: build_vocabulary_example in_vocabulary_def token_id_def)
  from encoding_drops_out_of_vocabulary[of ?tok "''a dog runs fast''"] words_example n m
  show ?thesis by simp
qed

text \<open>
  C10. The vocabulary of the captions "a dog runs" and "a dog runs fast" with minimum
  frequency 2: the counts are 2, 2, 2 and 1, the retained words are a, dog and runs, the
  vocabulary size is 4, and the final tokenizer encodes the second caption without fast.
\<close>

theorem vocabulary_scenario:
  "word_counts (fst (build_vocabulary [(''p1'', [''a dog runs'', ''a dog runs fast''])] 2)) =
     [(''a'', 2), (''dog'', 2), (''runs'', 2), (''fast'', 1)] \<and>
   snd (build_vocabulary [(''p1'', [''a dog runs'', ''a dog runs fast''])] 2) = (4, [''a'', ''dog'', ''runs'']) \<and>
   texts_to_sequences (fst (build_vocabulary [(''p1'', [''a dog runs'', ''a dog runs fast''])] 2))
     ''a dog runs fast'' = [1, 2, 3]"
  by (simp add: build_vocabulary_example texts_to_sequences_def words_example)


section \<open>Batch generator: one pass\<close>

declare inner_loop.simps [simp del]

lemma make_example_Inr:
  assumes "make_example c1 cd ft tok ml vs pids s counter r = Inr ((pid, row, pt, py), r1)"
  shows "counter < length s \<and> s ! counter < length pids \<and> pid = pids ! (s ! counter) \<and>
         (\<exists>caption_list caption padded_Y rows.
            map_of cd pid = Some caption_list \<and> caption \<in> set caption_list \<and>
            pad_sequences (butlast (texts_to_sequences tok caption)) ml = Inr pt \<and>
            pad_sequences (tl (texts_to_sequences tok caption)) ml = Inr padded_Y \<and>
            to_categorical padded_Y vs = Inr py \<and>
            map_of ft pid = Some (row # rows))"
  using assms unfolding make_example_def Let_def
  by (auto split: if_splits option.splits sum.splits list.splits prod.splits)
     (metis nth_mem not_le_imp_less)

lemma inner_loop_error:
  "make_example c1 cd ft tok ml vs pids s counter r = Inl e \<Longrightarrow>
   inner_loop c1 cd ft tok ml vs np pids s counter acc out r = (out, Inl e)"
  by (subst inner_loop.simps) simp

lemma inner_loop_zero:
  "make_example c1 cd ft tok ml vs pids s counter r = Inr x \<Longrightarrow> np = 0 \<Longrightarrow>
   inner_loop c1 cd ft tok ml vs np pids s counter acc out r = (out, Inl ZeroDivisionError)"
  by (subst inner_loop.simps) (simp add: Let_def split: prod.splits)

lemma inner_loop_step:
  assumes "make_example c1 cd ft tok ml vs pids s counter r = Inr ((pid, row, pt, py), r1)" "np \<noteq> 0"
  shows "inner_loop c1 cd ft tok ml vs np pids s counter acc out r =
     (let acc1 = \<lparr>photos = photos acc @ [pid], X_img = X_img acc @ [row],
                   X_text = X_text acc @ [pt], Y = Y acc @ [py]\<rparr>;
          flush = (int (Suc counter) mod np = 0);
          acc2 = (if flush then empty_batch else acc1);
          out2 = (if flush then out @ [acc1] else out)
      in if Suc counter \<ge> length pids then (out2 @ (if flush then [] else [acc2]), Inr r1)
         else inner_loop c1 cd ft tok ml vs np pids s (Suc counter) acc2 out2 r1)"
  using assms by (subst inner_loop.simps) (simp add: Let_def empty_batch_def)

lemma batch_ok_empty: "batch_ok Q empty_batch"
  by (simp add: batch_ok_def empty_batch_def)

lemma batch_ok_snoc:
  "batch_ok Q acc \<Longrightarrow> Q pid row pt py \<Longrightarrow>
   batch_ok Q \<lparr>photos = photos acc @ [pid], X_img = X_img acc @ [row],
              X_text = X_text acc @ [pt], Y = Y acc @ [py]\<rparr>"
  by (auto simp: batch_ok_def nth_append less_Suc_eq)

lemma inner_loop_rows:
  assumes Q: "\<And>counter r pid row pt py r1.
      make_example c1 cd ft tok ml vs pids s counter r = Inr ((pid, row, pt, py), r1) \<Longrightarrow> Q pid row pt py"
    and "batch_ok Q acc" "\<forall>b\<in>set out. batch_ok Q b"
  shows "\<forall>b\<in>set (fst (inner_loop c1 cd ft tok ml vs np pids s counter acc out r)). batch_ok Q b"
  using assms(2,3)
proof (induction "length pids - counter" arbitrary: counter acc out r rule: less_induct)
  case less
  show ?case
  proof (cases "make_example c1 cd ft tok ml vs pids s counter r")
    case (Inl e)
    then show ?thesis using less.prems by (simp add: inner_loop_error)
  next
    case (Inr x)
    obtain pid row pt py r1 where x: "x = ((pid, row, pt, py), r1)"
      by (cases x, cases "fst x") auto
    show ?thesis
    proof (cases "np = 0")
      case True
      then show ?thesis using Inr less.prems by (simp add: inner_loop_zero)
    next
      case False
      let ?acc1 = "\<lparr>photos = photos acc @ [pid], X_img = X_img acc @ [row],
                     X_text = X_text acc @ [pt], Y = Y acc @ [py]\<rparr>"
      have ok1: "batch_ok Q ?acc1"
        using batch_ok_snoc[OF less.prems(1)] Q Inr x by blast
      note step = inner_loop_step[OF Inr[unfolded x] False, of acc out]
      show ?thesis
      proof (cases "Suc counter \<ge> length pids")
        case True
        then show ?thesis using step ok1 less.prems by (auto simp: Let_def)
      next
        case False
        then have m: "length pids - Suc counter < length pids - counter" by simp
        show ?thesis
        proof (cases "int (Suc counter) mod np = 0")
          case True
          have "\<forall>b\<in>set (fst (inner_loop c1 cd ft tok ml vs np pids s (Suc counter) empty_batch (out @ [?acc1]) r1)). batch_ok Q b"
            using less.hyps[OF m, of empty_batch "out @ [?acc1]" r1] ok1 less.prems batch_ok_empty
            by auto
          then show ?thesis using step False True by (simp add: Let_def)
        next
          case nf: False
          have "\<forall>b\<in>set (fst (inner_loop c1 cd ft tok ml vs np pids s (Suc counter) ?acc1 out r1)). batch_ok Q b"
            using less.hyps[OF m, of ?acc1 out r1] ok1 less.prems by auto
          then show ?thesis using step False nf by (simp add: Let_def)
        qed
      qed
    qed
  qed
qed


lemma pad_sequences_pos:
  "pad_sequences xs ml =
     Inr (replicate (nat ml - length xs) 0 @ drop (length xs - nat ml) xs)" if "0 < ml"
proof (cases "length xs \<le> nat ml")
  case True
  then show ?thesis using that by (auto simp: pad_sequences_def Let_def)
next
  case False
  then have "length (drop (length xs - nat ml) xs) = nat ml" "xs \<noteq> []" by auto
  then show ?thesis using that False by (auto simp: pad_sequences_def Let_def)
qed

lemma pad_sequences_length:
  "pad_sequences xs ml = Inr p \<Longrightarrow> int (length p) = ml"
  by (auto simp: pad_sequences_def Let_def split: if_splits)

lemma encode_words_bound:
  "num_words tok = Some nw \<Longrightarrow> nw \<noteq> 0 \<Longrightarrow> \<forall>i\<in>set (encode_words tok ws). int i < nw"
  by (induction ws) (auto split: option.splits)

lemma to_categorical_ok:
  "0 < vs \<Longrightarrow> \<forall>v\<in>set y. int v < vs \<Longrightarrow> to_categorical y vs = Inr (map (one_hot (nat vs)) y)"
  by (auto simp: to_categorical_def)

lemma make_example_success:
  assumes "counter < length s" "s ! counter < length pids"
    and cd: "\<forall>p\<in>set pids. \<exists>cl. map_of cd p = Some cl \<and> cl \<noteq> []"
    and ft: "\<forall>p\<in>set pids. \<exists>row rows. map_of ft p = Some (row # rows)"
    and c1: "\<forall>r n. 0 < n \<longrightarrow> fst (c1 r n) < n"
    and "0 < ml" "0 < vs" "num_words tok = Some vs"
  shows "\<exists>x r1. make_example c1 cd ft tok ml vs pids s counter r = Inr (x, r1)"
proof -
  let ?pid = "pids ! (s ! counter)"
  have mem: "?pid \<in> set pids" using assms(2) by simp
  obtain cl where cl: "map_of cd ?pid = Some cl" "cl \<noteq> []" using cd mem by blast
  obtain row rows where row: "map_of ft ?pid = Some (row # rows)" using ft mem by blast
  obtain s2 r1 where s2: "c1 r (length cl) = (s2, r1)" by (cases "c1 r (length cl)")
  have s2lt: "s2 < length cl" using c1[rule_format, of "length cl" r] cl(2) s2 by simp
  let ?enc = "texts_to_sequences tok (cl ! s2)"
  have b: "\<forall>i\<in>set ?enc. int i < vs"
    using encode_words_bound[OF assms(8), of "text_to_word_sequence (cl ! s2)"] assms(7)
    by (simp add: texts_to_sequences_def)
  let ?pY = "replicate (nat ml - length (tl ?enc)) 0 @ drop (length (tl ?enc) - nat ml) (tl ?enc)"
  have "set (tl ?enc) \<subseteq> set ?enc" by (cases ?enc) auto
  then have "\<forall>v\<in>set ?pY. int v < vs"
    using b assms(7) by (auto dest!: in_set_dropD)
  then have tc: "to_categorical ?pY vs = Inr (map (one_hot (nat vs)) ?pY)"
    using to_categorical_ok[OF assms(7)] by blast
  show ?thesis
    unfolding make_example_def
    using assms(1,2) cl row s2 s2lt tc
    by (simp add: Let_def pad_sequences_pos[OF assms(6)])
qed

lemma expected_batch_sizes_full:
  "0 < k \<Longrightarrow> expected_batch_sizes (k + x) k = k # expected_batch_sizes x k"
  by (simp add: expected_batch_sizes_def div_add_self1)

lemma expected_batch_sizes_small:
  "0 < a \<Longrightarrow> a < k \<Longrightarrow> expected_batch_sizes a k = [a]"
  by (simp add: expected_batch_sizes_def)

lemma flush_iff:
  assumes "0 < np"
  shows "int (Suc counter) mod np = 0 \<longleftrightarrow> Suc (counter mod nat np) = nat np"
proof -
  have np: "np = int (nat np)" using assms by simp
  have "int (Suc counter) mod np = int (Suc counter mod nat np)"
    by (subst np) (simp only: zmod_int)
  then show ?thesis using assms by (auto simp: mod_Suc)
qed

lemma inner_loop_sizes:
  assumes ok: "\<And>counter r. counter < length pids \<Longrightarrow>
                 \<exists>x r1. make_example c1 cd ft tok ml vs pids s counter r = Inr (x, r1)"
    and np: "0 < np"
    and "counter < length pids" "length (Y acc) = counter mod nat np"
  shows "\<exists>new r'. inner_loop c1 cd ft tok ml vs np pids s counter acc out r = (out @ new, Inr r') \<and>
           map (\<lambda>b. length (Y b)) new =
             expected_batch_sizes (counter mod nat np + (length pids - counter)) (nat np)"
  using assms(3,4)
proof (induction "length pids - counter" arbitrary: counter acc out r rule: less_induct)
  case less
  let ?k = "nat np"
  have k: "0 < ?k" using np by simp
  obtain x r1 where Inr: "make_example c1 cd ft tok ml vs pids s counter r = Inr (x, r1)"
    using ok[OF less.prems(1)] by blast
  obtain pid row pt py where x: "x = (pid, row, pt, py)" by (cases x)
  have np0: "np \<noteq> 0" using np by simp
  let ?acc1 = "\<lparr>photos = photos acc @ [pid], X_img = X_img acc @ [row],
                 X_text = X_text acc @ [pt], Y = Y acc @ [py]\<rparr>"
  note step = inner_loop_step[OF Inr[unfolded x] np0, of acc out]
  have len1: "length (Y ?acc1) = Suc (counter mod ?k)" using less.prems(2) by simp
  have alt: "counter mod ?k < ?k" using k by simp
  show ?case
  proof (cases "int (Suc counter) mod np = 0")
    case True
    then have full: "Suc (counter mod ?k) = ?k" using flush_iff[OF np] by simp
    show ?thesis
    proof (cases "Suc counter \<ge> length pids")
      case last: True
      then have "length pids - counter = 1" using less.prems(1) by simp
      then have "expected_batch_sizes (counter mod ?k + (length pids - counter)) ?k = [?k]"
        using full expected_batch_sizes_full[OF k, of 0] by (simp add: expected_batch_sizes_def)
      then show ?thesis using step True last len1 full by (simp add: Let_def)
    next
      case False
      then have m: "length pids - Suc counter < length pids - counter"
        and lt: "Suc counter < length pids" by simp_all
      have z: "length (Y (empty_batch :: 'b batch)) = Suc counter mod ?k"
        using full by (simp add: empty_batch_def mod_Suc)
      obtain new r' where IH:
        "inner_loop c1 cd ft tok ml vs np pids s (Suc counter) empty_batch (out @ [?acc1]) r1 =
           ((out @ [?acc1]) @ new, Inr r')"
        "map (\<lambda>b. length (Y b)) new =
           expected_batch_sizes (Suc counter mod ?k + (length pids - Suc counter)) ?k"
        using less.hyps[OF m lt z, of "out @ [?acc1]" r1] by blast
      have "counter mod ?k + (length pids - counter) = ?k + (length pids - Suc counter)"
        using full lt by simp
      then have "expected_batch_sizes (counter mod ?k + (length pids - counter)) ?k =
                 ?k # expected_batch_sizes (length pids - Suc counter) ?k"
        using expected_batch_sizes_full[OF k] by simp
      moreover have "Suc counter mod ?k = 0" using full by (simp add: mod_Suc)
      ultimately show ?thesis using step True False IH len1 full
        by (intro exI[of _ "?acc1 # new"] exI[of _ r']) (simp add: Let_def)
    qed
  next
    case nf: False
    then have part: "Suc (counter mod ?k) < ?k" using flush_iff[OF np] alt by simp
    show ?thesis
    proof (cases "Suc counter \<ge> length pids")
      case last: True
      then have "length pids - counter = 1" using less.prems(1) by simp
      then have "expected_batch_sizes (counter mod ?k + (length pids - counter)) ?k = [Suc (counter mod ?k)]"
        using expected_batch_sizes_small[OF _ part] by simp
      then show ?thesis using step nf last len1 by (simp add: Let_def)
    next
      case False
      then have m: "length pids - Suc counter < length pids - counter"
        and lt: "Suc counter < length pids" by simp_all
      have z: "length (Y ?acc1) = Suc counter mod ?k"
        using part len1 by (simp add: mod_Suc)
      obtain new r' where IH:
        "inner_loop c1 cd ft tok ml vs np pids s (Suc counter) ?acc1 out r1 = (out @ new, Inr r')"
        "map (\<lambda>b. length (Y b)) new =
           expected_batch_sizes (Suc counter mod ?k + (length pids - Suc counter)) ?k"
        using less.hyps[OF m lt z, of out r1] by blast
      have "Suc counter mod ?k + (length pids - Suc counter) = counter mod ?k + (length pids - counter)"
        using part lt by (simp add: mod_Suc)
      then show ?thesis using step nf False IH
        by (intro exI[of _ new] exI[of _ r']) (simp add: Let_def)
    qed
  qed
qed

lemma perm_contract:
  assumes "mset s = mset [0 ..< n]"
  shows "length s = n" "\<And>i. i < n \<Longrightarrow> s ! i < n"
proof -
  show l: "length s = n" using assms by (metis length_upt mset_eq_length minus_nat.diff_0)
  have "set s = {0 ..< n}" using assms by (metis mset_eq_setD set_upt)
  then show "\<And>i. i < n \<Longrightarrow> s ! i < n" using l by (metis atLeastLessThan_iff nth_mem)
qed

lemma map_of_keys:
  assumes "\<forall>(p, cl)\<in>set cd. cl \<noteq> []"
  shows "\<forall>p\<in>set (map fst cd). \<exists>cl. map_of cd p = Some cl \<and> cl \<noteq> []"
proof
  fix p assume "p \<in> set (map fst cd)"
  then obtain cl where m: "map_of cd p = Some cl"
    by (metis map_of_eq_None_iff not_None_eq set_map)
  then have "(p, cl) \<in> set cd" by (rule map_of_SomeD)
  then show "\<exists>cl. map_of cd p = Some cl \<and> cl \<noteq> []" using m assms by auto
qed

lemma epoch_ok:
  assumes "pids \<noteq> []"
    and cd: "\<forall>p\<in>set pids. \<exists>cl. map_of cd p = Some cl \<and> cl \<noteq> []"
    and ft: "\<forall>p\<in>set pids. \<exists>row rows. map_of ft p = Some (row # rows)"
    and cp: "\<forall>r n. mset (fst (cp r n)) = mset [0 ..< n]"
    and c1: "\<forall>r n. 0 < n \<longrightarrow> fst (c1 r n) < n"
    and "0 < ml" "0 < vs" "num_words tok = Some vs" "0 < np"
  shows "\<exists>bs r'. epoch cp c1 cd ft tok ml vs np pids r = (bs, Inr r') \<and>
           map (\<lambda>b. length (Y b)) bs = expected_batch_sizes (length pids) (nat np) \<and>
           (\<forall>b\<in>set bs. length (X_img b) = length (Y b) \<and> length (X_text b) = length (Y b))"
proof -
  obtain s r0 where s: "cp r (length pids) = (s, r0)" by (cases "cp r (length pids)")
  have ms: "mset s = mset [0 ..< length pids]" using cp[rule_format, of r "length pids"] s by simp
  note pc = perm_contract[OF ms]
  have ok: "\<exists>x r1. make_example c1 cd ft tok ml vs pids s counter r = Inr (x, r1)"
    if "counter < length pids" for counter r
    using make_example_success[of counter s pids cd ft c1 ml vs tok r] that pc cd ft c1 assms(6,7,8)
    by simp
  have pos: "0 < length pids" using assms(1) by simp
  obtain new r' where new:
    "inner_loop c1 cd ft tok ml vs np pids s 0 empty_batch [] r0 = ([] @ new, Inr r')"
    "map (\<lambda>b. length (Y b)) new = expected_batch_sizes (0 mod nat np + (length pids - 0)) (nat np)"
    using inner_loop_sizes[of pids c1 cd ft tok ml vs s np 0 empty_batch "[]" r0, OF ok assms(9) pos]
    by (auto simp: empty_batch_def)
  have "\<forall>b\<in>set (fst (inner_loop c1 cd ft tok ml vs np pids s 0 empty_batch [] r0)).
          batch_ok (\<lambda>_ _ _ _. True) b"
    by (rule inner_loop_rows) (simp_all add: batch_ok_empty)
  then have "\<forall>b\<in>set new. length (X_img b) = length (Y b) \<and> length (X_text b) = length (Y b)"
    using new(1) by (simp add: batch_ok_def)
  then show ?thesis using new s by (simp add: epoch_def)
qed


lemma epoch_rows:
  assumes "\<And>counter s r pid row pt py r1.
      make_example c1 cd ft tok ml vs pids s counter r = Inr ((pid, row, pt, py), r1) \<Longrightarrow> Q pid row pt py"
  shows "\<forall>b\<in>set (fst (epoch cp c1 cd ft tok ml vs np pids r)). batch_ok Q b"
proof -
  obtain s r0 where s: "cp r (length pids) = (s, r0)" by (cases "cp r (length pids)")
  have "\<forall>b\<in>set (fst (inner_loop c1 cd ft tok ml vs np pids s 0 empty_batch [] r0)). batch_ok Q b"
    by (rule inner_loop_rows) (use assms in \<open>auto simp: batch_ok_empty\<close>)
  then show ?thesis using s by (simp add: epoch_def)
qed

lemma run_epochs_Suc_Inr:
  assumes "run_epochs (Suc k) cp c1 cd ft tok ml vs np pids r = (eps, Inr r')"
  obtains bs r1 eps' where "epoch cp c1 cd ft tok ml vs np pids r = (bs, Inr r1)"
    "run_epochs k cp c1 cd ft tok ml vs np pids r1 = (eps', Inr r')" "eps = bs # eps'"
  using assms by (auto split: prod.splits sum.splits)

section \<open>Batch generator: batch sizes\<close>

lemma run_epochs_ok:
  assumes "pids \<noteq> []"
    and cd: "\<forall>p\<in>set pids. \<exists>cl. map_of cd p = Some cl \<and> cl \<noteq> []"
    and ft: "\<forall>p\<in>set pids. \<exists>row rows. map_of ft p = Some (row # rows)"
    and cp: "\<forall>r n. mset (fst (cp r n)) = mset [0 ..< n]"
    and c1: "\<forall>r n. 0 < n \<longrightarrow> fst (c1 r n) < n"
    and "0 < ml" "0 < vs" "num_words tok = Some vs" "0 < np"
  shows "\<exists>eps r'. run_epochs k cp c1 cd ft tok ml vs np pids r = (eps, Inr r') \<and> length eps = k \<and>
           (\<forall>bs\<in>set eps. map (\<lambda>b. length (Y b)) bs = expected_batch_sizes (length pids) (nat np) \<and>
              (\<forall>b\<in>set bs. length (X_img b) = length (Y b) \<and> length (X_text b) = length (Y b)))"
proof (induction k arbitrary: r)
  case 0
  show ?case by simp
next
  case (Suc k)
  obtain bs r1 where e: "epoch cp c1 cd ft tok ml vs np pids r = (bs, Inr r1)"
    "map (\<lambda>b. length (Y b)) bs = expected_batch_sizes (length pids) (nat np)"
    "\<forall>b\<in>set bs. length (X_img b) = length (Y b) \<and> length (X_text b) = length (Y b)"
    using epoch_ok[OF assms, of r] by blast
  obtain eps r' where IH: "run_epochs k cp c1 cd ft tok ml vs np pids r1 = (eps, Inr r')" "length eps = k"
    "\<forall>bs\<in>set eps. map (\<lambda>b. length (Y b)) bs = expected_batch_sizes (length pids) (nat np) \<and>
              (\<forall>b\<in>set bs. length (X_img b) = length (Y b) \<and> length (X_text b) = length (Y b))"
    using Suc[of r1] by blast
  show ?case using e IH by (intro exI[of _ "bs # eps"] exI[of _ r']) simp
qed

lemma inner_loop_sizes_Inr:
  fixes acc :: "'f batch"
  assumes "inner_loop c1 cd ft tok ml vs np pids s counter acc out r = (bs, Inr r')"
    and np: "0 < np"
    and "counter < length pids" "length (Y acc) = counter mod nat np"
  shows "\<exists>new. bs = out @ new \<and>
           map (\<lambda>b. length (Y b)) new =
             expected_batch_sizes (counter mod nat np + (length pids - counter)) (nat np)"
  using assms(1,3,4)
proof (induction "length pids - counter" arbitrary: counter acc out r rule: less_induct)
  case less
  let ?k = "nat np"
  have k: "0 < ?k" using np by simp
  have np0: "np \<noteq> 0" using np by simp
  obtain x r1 where Inr: "make_example c1 cd ft tok ml vs pids s counter r = Inr (x, r1)"
  proof (cases "make_example c1 cd ft tok ml vs pids s counter r")
    case (Inl e)
    then show ?thesis using less.prems(1) by (simp add: inner_loop_error)
  next
    case (Inr y)
    then show ?thesis using that by (cases y) auto
  qed
  obtain pid row pt py where x: "x = (pid, row, pt, py)" by (cases x)
  let ?acc1 = "\<lparr>photos = photos acc @ [pid], X_img = X_img acc @ [row],
                 X_text = X_text acc @ [pt], Y = Y acc @ [py]\<rparr>"
  note step = inner_loop_step[OF Inr[unfolded x] np0, of acc out]
  have len1: "length (Y ?acc1) = Suc (counter mod ?k)" using less.prems(3) by simp
  have alt: "counter mod ?k < ?k" using k by simp
  show ?case
  proof (cases "int (Suc counter) mod np = 0")
    case True
    then have full: "Suc (counter mod ?k) = ?k" using flush_iff[OF np] by simp
    show ?thesis
    proof (cases "Suc counter \<ge> length pids")
      case last: True
      then have "length pids - counter = 1" using less.prems(2) by simp
      then have "expected_batch_sizes (counter mod ?k + (length pids - counter)) ?k = [?k]"
        using full expected_batch_sizes_full[OF k, of 0] by (simp add: expected_batch_sizes_def)
      moreover have "bs = out @ [?acc1]"
        using step True last less.prems(1) by (simp add: Let_def)
      ultimately show ?thesis using len1 full by (intro exI[of _ "[?acc1]"]) simp
    next
      case False
      then have m: "length pids - Suc counter < length pids - counter"
        and lt: "Suc counter < length pids" by simp_all
      have z: "length (Y (empty_batch :: 'f batch)) = Suc counter mod ?k"
        using full by (simp add: empty_batch_def mod_Suc)
      have rec: "inner_loop c1 cd ft tok ml vs np pids s (Suc counter) empty_batch (out @ [?acc1]) r1 = (bs, Inr r')"
        using step True False less.prems(1) by (simp add: Let_def)
      obtain new where IH: "bs = (out @ [?acc1]) @ new"
        "map (\<lambda>b. length (Y b)) new =
           expected_batch_sizes (Suc counter mod ?k + (length pids - Suc counter)) ?k"
        using less.hyps[OF m rec lt z] by blast
      have "counter mod ?k + (length pids - counter) = ?k + (length pids - Suc counter)"
        using full lt by simp
      then have "expected_batch_sizes (counter mod ?k + (length pids - counter)) ?k =
                 ?k # expected_batch_sizes (length pids - Suc counter) ?k"
        using expected_batch_sizes_full[OF k] by simp
      moreover have "Suc counter mod ?k = 0" using full by (simp add: mod_Suc)
      ultimately show ?thesis using IH len1 full
        by (intro exI[of _ "?acc1 # new"]) simp
    qed
  next
    case nf: False
    then have part: "Suc (counter mod ?k) < ?k" using flush_iff[OF np] alt by simp
    show ?thesis
    proof (cases "Suc counter \<ge> length pids")
      case last: True
      then have "length pids - counter = 1" using less.prems(2) by simp
      then have "expected_batch_sizes (counter mod ?k + (length pids - counter)) ?k = [Suc (counter mod ?k)]"
        using expected_batch_sizes_small[OF _ part] by simp
      moreover have "bs = out @ [?acc1]"
        using step nf last less.prems(1) by (simp add: Let_def)
      ultimately show ?thesis using len1 by (intro exI[of _ "[?acc1]"]) simp
    next
      case False
      then have m: "length pids - Suc counter < length pids - counter"
        and lt: "Suc counter < length pids" by simp_all
      have z: "length (Y ?acc1) = Suc counter mod ?k"
        using part len1 by (simp add: mod_Suc)
      have rec: "inner_loop c1 cd ft tok ml vs np pids s (Suc counter) ?acc1 out r1 = (bs, Inr r')"
        using step nf False less.prems(1) by (simp add: Let_def)
      obtain new where IH: "bs = out @ new"
        "map (\<lambda>b. length (Y b)) new =
           expected_batch_sizes (Suc counter mod ?k + (length pids - Suc counter)) ?k"
        using less.hyps[OF m rec lt z] by blast
      have "Suc counter mod ?k + (length pids - Suc counter) = counter mod ?k + (length pids - counter)"
        using part lt by (simp add: mod_Suc)
      then show ?thesis using IH by (intro exI[of _ new]) simp
    qed
  qed
qed

lemma epoch_sizes_Inr:
  assumes "epoch cp c1 cd ft tok ml vs np pids r = (bs, Inr r')" "0 < np"
  shows "map (\<lambda>b. length (Y b)) bs = expected_batch_sizes (length pids) (nat np) \<and>
         (\<forall>b\<in>set bs. length (X_img b) = length (Y b) \<and> length (X_text b) = length (Y b))"
proof -
  obtain s r0 where s: "cp r (length pids) = (s, r0)" by (cases "cp r (length pids)")
  have il: "inner_loop c1 cd ft tok ml vs np pids s 0 empty_batch [] r0 = (bs, Inr r')"
    using assms(1) s by (simp add: epoch_def)
  have pos: "0 < length pids"
  proof (rule ccontr)
    assume "\<not> 0 < length pids"
    then have "make_example c1 cd ft tok ml vs pids s 0 r0 = Inl IndexError"
      by (simp add: make_example_def)
    then show False using il by (simp add: inner_loop_error)
  qed
  have "map (\<lambda>b. length (Y b)) bs = expected_batch_sizes (length pids) (nat np)"
    using inner_loop_sizes_Inr[OF il assms(2) pos] by (simp add: empty_batch_def)
  moreover have "\<forall>b\<in>set (fst (epoch cp c1 cd ft tok ml vs np pids r)). batch_ok (\<lambda>_ _ _ _. True) b"
    by (rule epoch_rows) simp
  ultimately show ?thesis using assms(1) by (simp add: batch_ok_def)
qed

lemma run_epochs_sizes_Inr:
  assumes "run_epochs k cp c1 cd ft tok ml vs np pids r = (eps, Inr r')" "0 < np"
  shows "length eps = k \<and>
         (\<forall>bs\<in>set eps. map (\<lambda>b. length (Y b)) bs = expected_batch_sizes (length pids) (nat np) \<and>
            (\<forall>b\<in>set bs. length (X_img b) = length (Y b) \<and> length (X_text b) = length (Y b)))"
  using assms(1)
proof (induction k arbitrary: r eps)
  case 0
  then show ?case by simp
next
  case (Suc k)
  from Suc.prems obtain bs r1 eps' where e: "epoch cp c1 cd ft tok ml vs np pids r = (bs, Inr r1)"
    and rest: "run_epochs k cp c1 cd ft tok ml vs np pids r1 = (eps', Inr r')" and eps: "eps = bs # eps'"
    by (rule run_epochs_Suc_Inr)
  show ?case using Suc.IH[OF rest] epoch_sizes_Inr[OF e assms(2)] eps by simp
qed

text \<open>
  C5. With a positive batch size, every completed pass over \<open>n\<close> photos yields
  \<open>n div num_photos\<close> batches of \<open>num_photos\<close> examples, then one batch of
  \<open>n mod num_photos\<close> examples if that is not zero, and the next pass starts. The passes
  do complete when the dictionary and its caption lists are not empty, every photo has a
  feature row, the random draws are in range, \<open>max_length\<close> is positive and the tokenizer is
  limited to the positive \<open>vocab_size\<close>.
\<close>

theorem batch_sizes_in_every_pass:
  assumes "0 < num_photos"
  shows "(\<forall>eps r'.
            generate_dataset k choice_perm choice_one caption_dict features tokenizer max_length
              vocab_size num_photos r = (eps, Inr r') \<longrightarrow>
            length eps = k \<and>
            (\<forall>bs\<in>set eps.
               map (\<lambda>b. length (Y b)) bs =
                 replicate (length caption_dict div nat num_photos) (nat num_photos) @
                 (if length caption_dict mod nat num_photos = 0 then []
                  else [length caption_dict mod nat num_photos]) \<and>
               (\<forall>b\<in>set bs. length (X_img b) = length (Y b) \<and> length (X_text b) = length (Y b)))) \<and>
         (caption_dict \<noteq> [] \<and>
          (\<forall>(photo_id, caption_list)\<in>set caption_dict. caption_list \<noteq> []) \<and>
          (\<forall>photo_id\<in>set (map fst caption_dict). \<exists>row rows. map_of features photo_id = Some (row # rows)) \<and>
          (\<forall>r n. mset (fst (choice_perm r n)) = mset [0 ..< n]) \<and>
          (\<forall>r n. 0 < n \<longrightarrow> fst (choice_one r n) < n) \<and>
          0 < max_length \<and> 0 < vocab_size \<and> num_words tokenizer = Some vocab_size \<longrightarrow>
          (\<exists>eps r'.
             generate_dataset k choice_perm choice_one caption_dict features tokenizer max_length
               vocab_size num_photos r = (eps, Inr r')))"
proof (intro conjI allI impI)
  fix eps r'
  assume run: "generate_dataset k choice_perm choice_one caption_dict features tokenizer max_length
              vocab_size num_photos r = (eps, Inr r')"
  then have "run_epochs k choice_perm choice_one caption_dict features tokenizer max_length
              vocab_size num_photos (map fst caption_dict) r = (eps, Inr r')"
    by (simp add: generate_dataset_def)
  note sz = run_epochs_sizes_Inr[OF this assms]
  show "length eps = k" using sz by simp
  show "\<forall>bs\<in>set eps.
               map (\<lambda>b. length (Y b)) bs =
                 replicate (length caption_dict div nat num_photos) (nat num_photos) @
                 (if length caption_dict mod nat num_photos = 0 then []
                  else [length caption_dict mod nat num_photos]) \<and>
               (\<forall>b\<in>set bs. length (X_img b) = length (Y b) \<and> length (X_text b) = length (Y b))"
    using sz by (simp add: expected_batch_sizes_def)
next
  assume pre: "caption_dict \<noteq> [] \<and>
          (\<forall>(photo_id, caption_list)\<in>set caption_dict. caption_list \<noteq> []) \<and>
          (\<forall>photo_id\<in>set (map fst caption_dict). \<exists>row rows. map_of features photo_id = Some (row # rows)) \<and>
          (\<forall>r n. mset (fst (choice_perm r n)) = mset [0 ..< n]) \<and>
          (\<forall>r n. 0 < n \<longrightarrow> fst (choice_one r n) < n) \<and>
          0 < max_length \<and> 0 < vocab_size \<and> num_words tokenizer = Some vocab_size"
  then have ne: "map fst caption_dict \<noteq> []" by simp
  have cd: "\<forall>p\<in>set (map fst caption_dict). \<exists>cl. map_of caption_dict p = Some cl \<and> cl \<noteq> []"
    using map_of_keys pre by blast
  from run_epochs_ok[OF ne cd _ _ _ _ _ _ assms, of features choice_perm choice_one max_length
      vocab_size tokenizer k r] pre
  show "\<exists>eps r'.
             generate_dataset k choice_perm choice_one caption_dict features tokenizer max_length
               vocab_size num_photos r = (eps, Inr r')"
    by (auto simp: generate_dataset_def)
qed

theorem batch_sizes_in_every_pass_witness:
  "\<exists>eps r'.
     generate_dataset 2 (\<lambda>r n. (rev [0 ..< n], Suc r)) (\<lambda>r n. (r mod n, Suc r))
       [(''a'', [''x'']), (''b'', [''x'']), (''c'', [''x'']), (''d'', [''x'']), (''e'', [''x''])]
       [(''a'', [()]), (''b'', [()]), (''c'', [()]), (''d'', [()]), (''e'', [()])]
       (Tokenizer (Some 4)) 3 4 2 (0::nat) = (eps, Inr r') \<and>
     length eps = 2 \<and>
     (\<forall>bs\<in>set eps. map (\<lambda>b. length (Y b)) bs = [2, 2, 1])"
proof -
  let ?cd = "[(''a'', [''x'']), (''b'', [''x'']), (''c'', [''x'']), (''d'', [''x'']), (''e'', [''x''])]"
  let ?ft = "[(''a'', [()]), (''b'', [()]), (''c'', [()]), (''d'', [()]), (''e'', [()])]"
  let ?cp = "\<lambda>(r::nat) n. (rev [0 ..< n], Suc r)"
  let ?c1 = "\<lambda>(r::nat) n. (r mod n, Suc r)"
  have sizes: "replicate (length ?cd div nat 2) (nat 2) @
          (if length ?cd mod nat 2 = 0 then [] else [length ?cd mod nat 2]) = [2, 2, 1]"
  proof -
    have "length ?cd = 5" by simp
    moreover have "(5::nat) div nat 2 = 2" "(5::nat) mod nat 2 = 1" "nat 2 = 2" by simp_all
    moreover have "replicate 2 (2::nat) = [2, 2]" by (simp add: numeral_2_eq_2)
    ultimately show ?thesis by (simp only:) simp
  qed
  have two: "(0::int) < 2" by simp
  note th = batch_sizes_in_every_pass[OF two, of 2 ?cp ?c1 ?cd ?ft "Tokenizer (Some 4)" 3 4 0]
  have pre: "?cd \<noteq> [] \<and>
          (\<forall>(photo_id, caption_list)\<in>set ?cd. caption_list \<noteq> []) \<and>
          (\<forall>photo_id\<in>set (map fst ?cd). \<exists>row rows. map_of ?ft photo_id = Some (row # rows)) \<and>
          (\<forall>r n. mset (fst (?cp r n)) = mset [0 ..< n]) \<and>
          (\<forall>r n. 0 < n \<longrightarrow> fst (?c1 r n) < n) \<and>
          (0::int) < 3 \<and> (0::int) < 4 \<and> num_words (Tokenizer (Some 4)) = Some 4"
    by (simp add: Tokenizer_def)
  from th[THEN conjunct2, rule_format, OF pre] obtain eps r' where
    run: "generate_dataset 2 ?cp ?c1 ?cd ?ft (Tokenizer (Some 4)) 3 4 2 0 = (eps, Inr r')"
    by blast
  from th[THEN conjunct1, rule_format, OF run] have "length eps = 2"
    "\<forall>bs\<in>set eps. map (\<lambda>b. length (Y b)) bs = [2, 2, 1]"
    unfolding sizes by blast+
  then show ?thesis using run by blast
qed

section \<open>Batch generator: every photo once in each pass\<close>



lemma run_epochs_rows:
  assumes "\<And>counter s r pid row pt py r1.
      make_example c1 cd ft tok ml vs pids s counter r = Inr ((pid, row, pt, py), r1) \<Longrightarrow> Q pid row pt py"
  shows "\<forall>bs\<in>set (fst (run_epochs k cp c1 cd ft tok ml vs np pids r)). \<forall>b\<in>set bs. batch_ok Q b"
proof (induction k arbitrary: r)
  case 0
  show ?case by simp
next
  case (Suc k)
  have e: "\<forall>b\<in>set (fst (epoch cp c1 cd ft tok ml vs np pids r)). batch_ok Q b"
    by (rule epoch_rows) (rule assms)
  show ?case
  proof (cases "epoch cp c1 cd ft tok ml vs np pids r")
    case (Pair bs res)
    show ?thesis
    proof (cases res)
      case (Inl err)
      then show ?thesis using Pair e by simp
    next
      case (Inr r1)
      then show ?thesis using Pair e Suc[of r1] by (simp split: prod.splits)
    qed
  qed
qed






section \<open>Batch generator: the shape of a training example\<close>

lemma pad_sequences_Inr:
  assumes "pad_sequences xs ml = Inr p"
  shows "p = replicate (nat ml - length xs) 0 @ drop (length xs - nat ml) xs"
proof (cases "0 < ml")
  case True
  then show ?thesis using pad_sequences_pos[OF True, of xs] assms by simp
next
  case False
  then show ?thesis using assms by (auto simp: pad_sequences_def Let_def split: if_splits)
qed

text \<open>
  C6, as the code has it. Every example in a yielded batch comes from one caption of its
  photo: the padded input and the padded target (the vector that is expanded to the
  one-hot target) have length \<open>max_length\<close>; the input is built from the encoded caption
  without its last id and the target from the encoded caption without its first id. A
  sequence shorter than \<open>max_length\<close> gets zeros on its left; a longer one keeps only its
  last \<open>max_length\<close> ids.
\<close>

theorem training_example_shape:
  fixes features :: "(string \<times> 'f list) list"
  assumes "generate_dataset k choice_perm choice_one caption_dict features tokenizer max_length
             vocab_size num_photos r = (eps, res)"
  shows "\<forall>bs\<in>set eps. \<forall>b\<in>set bs.
           length (photos b) = length (Y b) \<and> length (X_text b) = length (Y b) \<and>
           (\<forall>j < length (Y b). \<exists>caption_list caption encoded padded_Y.
              map_of caption_dict (photos b ! j) = Some caption_list \<and>
              caption \<in> set caption_list \<and>
              encoded = texts_to_sequences tokenizer caption \<and>
              to_categorical padded_Y vocab_size = Inr (Y b ! j) \<and>
              int (length (X_text b ! j)) = max_length \<and>
              int (length padded_Y) = max_length \<and>
              X_text b ! j =
                replicate (nat max_length - length (butlast encoded)) 0 @
                drop (length (butlast encoded) - nat max_length) (butlast encoded) \<and>
              padded_Y =
                replicate (nat max_length - length (tl encoded)) 0 @
                drop (length (tl encoded) - nat max_length) (tl encoded))"
proof -
  let ?Q = "\<lambda>pid (row::'f) pt py. \<exists>caption_list caption encoded padded_Y.
              map_of caption_dict pid = Some caption_list \<and>
              caption \<in> set caption_list \<and>
              encoded = texts_to_sequences tokenizer caption \<and>
              to_categorical padded_Y vocab_size = Inr py \<and>
              int (length pt) = max_length \<and>
              int (length padded_Y) = max_length \<and>
              pt = replicate (nat max_length - length (butlast encoded)) 0 @
                drop (length (butlast encoded) - nat max_length) (butlast encoded) \<and>
              padded_Y = replicate (nat max_length - length (tl encoded)) 0 @
                drop (length (tl encoded) - nat max_length) (tl encoded)"
  have Q: "?Q pid row pt py"
    if "make_example choice_one caption_dict features tokenizer max_length vocab_size
          (map fst caption_dict) s counter r = Inr ((pid, row, pt, py), r1)"
    for counter s r pid row pt py r1
  proof -
    from make_example_Inr[OF that] obtain caption_list caption padded_Y where
      m: "map_of caption_dict pid = Some caption_list" "caption \<in> set caption_list"
      and p1: "pad_sequences (butlast (texts_to_sequences tokenizer caption)) max_length = Inr pt"
      and p2: "pad_sequences (tl (texts_to_sequences tokenizer caption)) max_length = Inr padded_Y"
      and tc: "to_categorical padded_Y vocab_size = Inr py"
      by blast
    show ?thesis
      using m tc pad_sequences_length[OF p1] pad_sequences_length[OF p2]
        pad_sequences_Inr[OF p1] pad_sequences_Inr[OF p2]
      by blast
  qed
  have "\<forall>bs\<in>set (fst (run_epochs k choice_perm choice_one caption_dict features tokenizer max_length
             vocab_size num_photos (map fst caption_dict) r)). \<forall>b\<in>set bs. batch_ok ?Q b"
    by (rule run_epochs_rows) (rule Q)
  then have "\<forall>bs\<in>set eps. \<forall>b\<in>set bs. batch_ok ?Q b"
    using assms by (simp add: generate_dataset_def)
  then show ?thesis unfolding batch_ok_def by blast
qed

subsection \<open>A concrete pass\<close>

lemma sample_words:
  "text_to_word_sequence ''startseq dog runs endseq'' = [''startseq'', ''dog'', ''runs'', ''endseq'']"
  by (simp add: text_to_word_sequence_def char_eval)

lemma sample_tokenizer_eq:
  "sample_tokenizer =
     \<lparr>num_words = Some 5,
      word_counts = [(''startseq'', 2), (''dog'', 2), (''runs'', 2), (''endseq'', 2)],
      word_index = [(''startseq'', 1), (''dog'', 2), (''runs'', 3), (''endseq'', 4)],
      index_word = [(1, ''startseq''), (2, ''dog''), (3, ''runs''), (4, ''endseq'')]\<rparr>"
  by (simp add: sample_tokenizer_def sample_dict_def build_vocabulary_def create_tokenizer_def
      caption_to_list_def fit_on_texts_def Tokenizer_def sample_words upt_rec)

lemma sample_encoded:
  "texts_to_sequences sample_tokenizer ''startseq dog runs endseq'' = [1, 2, 3, 4]"
  by (simp add: sample_tokenizer_eq texts_to_sequences_def sample_words)

lemma ex0: "make_example (\<lambda>r n. (0, r)) sample_dict [(''p1'', [()]), (''p2'', [()])]
              sample_tokenizer 2 5 [''p1'', ''p2''] [0, 1] 0 (0::nat) =
            Inr ((''p1'', (), [2, 3], [[0, 0, 0, 1, 0], [0, 0, 0, 0, 1]]), 0)"
  by (simp add: make_example_def sample_dict_def sample_encoded pad_sequences_def to_categorical_def one_hot_def upt_rec Let_def)

lemma ex1: "make_example (\<lambda>r n. (0, r)) sample_dict [(''p1'', [()]), (''p2'', [()])]
              sample_tokenizer 2 5 [''p1'', ''p2''] [0, 1] 1 (0::nat) =
            Inr ((''p2'', (), [2, 3], [[0, 0, 0, 1, 0], [0, 0, 0, 0, 1]]), 0)"
  by (simp add: make_example_def sample_dict_def sample_encoded pad_sequences_def to_categorical_def one_hot_def upt_rec Let_def)

lemma sample_run:
  "generate_dataset (Suc 0) (\<lambda>r n. ([0 ..< n], r)) (\<lambda>r n. (0, r)) sample_dict
     [(''p1'', [()]), (''p2'', [()])] sample_tokenizer 2 5 32 (0::nat) =
   ([[\<lparr>photos = [''p1'', ''p2''], X_img = [(), ()], X_text = [[2, 3], [2, 3]],
       Y = [[[0, 0, 0, 1, 0], [0, 0, 0, 0, 1]], [[0, 0, 0, 1, 0], [0, 0, 0, 0, 1]]]\<rparr>]], Inr 0)"
proof -
  let ?c1 = "\<lambda>(r::nat) (n::nat). (0::nat, r)"
  let ?ft = "[(''p1'', [()]), (''p2'', [()])]"
  let ?acc1 = "\<lparr>photos = [''p1''], X_img = [()], X_text = [[2, 3]],
                 Y = [[[0, 0, 0, 1, 0], [0, 0, 0, 0, 1]]]\<rparr>"
  have pids: "map fst sample_dict = [''p1'', ''p2'']" by (simp add: sample_dict_def)
  have cp: "[0 ..< length [''p1'', ''p2'']] = [0, 1]"
    by (simp add: upt_rec)
  have s0: "inner_loop ?c1 sample_dict ?ft sample_tokenizer 2 5 32 [''p1'', ''p2''] [0, 1] 0 empty_batch [] 0 =
            inner_loop ?c1 sample_dict ?ft sample_tokenizer 2 5 32 [''p1'', ''p2''] [0, 1] 1 ?acc1 [] 0"
    using inner_loop_step[OF ex0, of 32 empty_batch "[]"] by (simp add: Let_def empty_batch_def)
  have s1: "inner_loop ?c1 sample_dict ?ft sample_tokenizer 2 5 32 [''p1'', ''p2''] [0, 1] 1 ?acc1 [] 0 =
            ([\<lparr>photos = [''p1'', ''p2''], X_img = [(), ()], X_text = [[2, 3], [2, 3]],
       Y = [[[0, 0, 0, 1, 0], [0, 0, 0, 0, 1]], [[0, 0, 0, 1, 0], [0, 0, 0, 0, 1]]]\<rparr>], Inr 0)"
    using inner_loop_step[OF ex1, of 32 ?acc1 "[]"] by (simp add: Let_def)
  show ?thesis
    by (simp only: generate_dataset_def Let_def pids run_epochs.simps epoch_def cp prod.case
        s0 s1 sum.case)
qed

text \<open>
  C6 as stated fails when a caption is longer than \<open>max_length + 1\<close>: with
  \<open>max_length = 2\<close> the caption encoded as \<open>[1, 2, 3, 4]\<close> gives the input \<open>[2, 3]\<close>, which is
  not \<open>[1, 2, 3]\<close> with zeros on its left.
\<close>

theorem training_example_left_padding_counterexample:
  "generate_dataset (Suc 0) (\<lambda>r n. ([0 ..< n], r)) (\<lambda>r n. (0, r)) sample_dict
     [(''p1'', [()]), (''p2'', [()])] sample_tokenizer 2 5 32 (0::nat) =
   ([[\<lparr>photos = [''p1'', ''p2''], X_img = [(), ()], X_text = [[2, 3], [2, 3]],
       Y = [[[0, 0, 0, 1, 0], [0, 0, 0, 0, 1]], [[0, 0, 0, 1, 0], [0, 0, 0, 0, 1]]]\<rparr>]], Inr 0) \<and>
   butlast (texts_to_sequences sample_tokenizer ''startseq dog runs endseq'') = [1, 2, 3] \<and>
   \<not> (\<exists>n. [2, 3] = replicate n 0 @ [1, 2, 3 :: nat])"
proof -
  have "[2, 3] \<noteq> replicate n 0 @ [1, 2, 3 :: nat]" for n
  proof
    assume "[2, 3] = replicate n 0 @ [1, 2, 3 :: nat]"
    then have "length [2, 3 :: nat] = length (replicate n 0 @ [1, 2, 3 :: nat])" by simp
    then show False by simp
  qed
  then show ?thesis using sample_run by (simp add: sample_encoded)
qed

theorem training_example_shape_witness:
  "\<exists>caption_list caption encoded padded_Y.
     map_of sample_dict ''p1'' = Some caption_list \<and> caption \<in> set caption_list \<and>
     encoded = texts_to_sequences sample_tokenizer caption \<and>
     to_categorical padded_Y 5 = Inr [[0, 0, 0, 1, 0], [0, 0, 0, 0, 1]] \<and>
     int (length [2, 3 :: nat]) = 2 \<and> int (length padded_Y) = 2 \<and>
     [2, 3] = replicate (nat 2 - length (butlast encoded)) 0 @
                drop (length (butlast encoded) - nat 2) (butlast encoded) \<and>
     padded_Y = replicate (nat 2 - length (tl encoded)) 0 @
                drop (length (tl encoded) - nat 2) (tl encoded)"
proof -
  let ?b = "\<lparr>photos = [''p1'', ''p2''], X_img = [(), ()], X_text = [[2, 3], [2, 3]],
       Y = [[[0, 0, 0, 1, 0], [0, 0, 0, 0, 1]], [[0, 0, 0, 1, 0], [0, 0, 0, 0, 1 :: nat]]]\<rparr>"
  have b: "?b \<in> set [?b]" "[?b] \<in> set [[?b]]" "0 < length (Y ?b)" by simp_all
  from training_example_shape[OF sample_run, rule_format, OF b(2) b(1), THEN conjunct2,
      THEN conjunct2, rule_format, OF b(3)]
  show ?thesis by simp
qed

section \<open>Decoder: tokens of the running caption\<close>

declare str_replace.simps [simp del]

lemma takeWhile_dropWhile_sep:
  "sep s \<Longrightarrow> takeWhile (\<lambda>x. \<not> sep x) (cs @ s # ys) = takeWhile (\<lambda>x. \<not> sep x) cs \<and>
     dropWhile (\<lambda>x. \<not> sep x) (cs @ s # ys) = dropWhile (\<lambda>x. \<not> sep x) cs @ s # ys"
  by (induction cs) auto

lemma split_at_append_sep:
  "sep s \<Longrightarrow> split_at sep (xs @ s # ys) = split_at sep xs @ split_at sep ys"
proof (induction sep xs rule: split_at.induct)
  case (1 sep)
  then show ?case by simp
next
  case (2 sep c cs)
  then show ?case by (simp add: takeWhile_dropWhile_sep)
qed

lemma split_at_single: "w \<noteq> [] \<Longrightarrow> \<forall>c\<in>set w. \<not> sep c \<Longrightarrow> split_at sep w = [w]"
  using split_at_token[of w sep "[]"] by simp

lemma split_ws_append_word:
  assumes "w \<noteq> []" "\<forall>c\<in>set w. \<not> is_space c"
  shows "split_ws (caption @ '' '' @ w) = split_ws caption @ [w]"
  using split_at_append_sep[of is_space "CHR '' ''" caption w] space_is_space
    split_at_single[OF assms]
  by (simp add: split_ws_def)

lemma count_tokens_dropWhile:
  "count_tokens sep True cs = count_tokens sep False (dropWhile (\<lambda>x. \<not> sep x) cs)"
  by (induction cs) auto

lemma length_split_at: "length (split_at sep s) = count_tokens sep False s"
  by (induction sep s rule: split_at.induct) (auto simp: count_tokens_dropWhile)

lemma count_tokens_flag:
  "count_tokens sep True s \<le> count_tokens sep False s"
  "count_tokens sep False s \<le> Suc (count_tokens sep True s)"
  by (cases s; simp)+

lemma count_tokens_suffix: "count_tokens sep b ys \<le> count_tokens sep b (xs @ ys)"
proof (induction xs arbitrary: b)
  case Nil
  show ?case by simp
next
  case (Cons c cs)
  show ?case
  proof (cases "sep c")
    case True
    have "count_tokens sep b ys \<le> count_tokens sep False ys"
      using count_tokens_flag(1)[of sep ys] by (cases b) auto
    also have "\<dots> \<le> count_tokens sep False (cs @ ys)" by (rule Cons.IH)
    finally show ?thesis using True by simp
  next
    case False
    have "count_tokens sep b ys \<le> (if b then 0 else 1) + count_tokens sep True ys"
      using count_tokens_flag(2)[of sep ys] by (cases b) auto
    also have "\<dots> \<le> (if b then 0 else 1) + count_tokens sep True (cs @ ys)"
      using Cons.IH[of True] by simp
    finally show ?thesis using False by simp
  qed
qed

lemma count_tokens_str_replace:
  assumes "old \<noteq> []"
  shows "count_tokens sep b (str_replace old [] s) \<le> count_tokens sep b s"
proof (induction "length s" arbitrary: s b rule: less_induct)
  case less
  show ?case
  proof (cases "s = []")
    case True
    then show ?thesis using assms by (subst str_replace.simps) simp
  next
    case ne: False
    show ?thesis
    proof (cases "take (length old) s = old")
      case True
      have shorter: "length (drop (length old) s) < length s" using ne assms by simp
      have "count_tokens sep b (str_replace old [] s) =
            count_tokens sep b (str_replace old [] (drop (length old) s))"
        using True ne assms by (subst str_replace.simps) simp
      also have "\<dots> \<le> count_tokens sep b (drop (length old) s)"
        by (rule less.hyps[OF shorter])
      also have "\<dots> \<le> count_tokens sep b (take (length old) s @ drop (length old) s)"
        by (rule count_tokens_suffix)
      finally show ?thesis by simp
    next
      case False
      obtain c cs where s: "s = c # cs" using ne by (cases s) auto
      have r: "str_replace old [] s = c # str_replace old [] cs"
        using False ne assms s by (subst str_replace.simps) simp
      have IH: "count_tokens sep b' (str_replace old [] cs) \<le> count_tokens sep b' cs" for b'
        using less.hyps[of cs b'] s by simp
      show ?thesis unfolding r unfolding s using IH[of True] IH[of False] by simp
    qed
  qed
qed

lemma length_split_ws_str_replace:
  "old \<noteq> [] \<Longrightarrow> length (split_ws (str_replace old [] s)) \<le> length (split_ws s)"
  by (simp add: split_ws_def length_split_at count_tokens_str_replace)

section \<open>Decoder: the loop\<close>

lemma sample_loop_Suc:
  assumes "pad_sequences (texts_to_sequences tok c) ml = Inr padded"
    and "model feat padded = t # ts" "argmax (last (t # ts)) = Inr k"
    and "map_of (index_word tok) k = Some w"
  shows "sample_loop (Suc fuel) model tok ml feat c =
           (if w = ''endseq'' \<or> int (length (split_ws (c @ '' '' @ w))) \<ge> ml
            then Some (Inr (c @ '' '' @ w))
            else sample_loop fuel model tok ml feat (c @ '' '' @ w))"
  using assms by (simp add: Let_def)

lemma concat_spaces_Cons:
  "c @ concat (map ((#) CHR '' '') (w # ws)) = (c @ '' '' @ w) @ concat (map ((#) CHR '' '') ws)"
  by simp

lemma sample_loop_run:
  assumes words: "\<forall>(k, w)\<in>set (index_word tok). w \<noteq> [] \<and> (\<forall>c\<in>set w. \<not> is_space c)"
    and model: "\<forall>padded. \<exists>t ts k w. model feat padded = t # ts \<and> argmax (last (t # ts)) = Inr k \<and>
                  map_of (index_word tok) k = Some w"
    and ml: "0 < ml"
  shows "\<exists>ws. ws \<noteq> [] \<and>
           (\<forall>fuel. sample_loop fuel model tok ml feat c =
              (if fuel < length ws then None
               else Some (Inr (c @ concat (map ((#) CHR '' '') ws))))) \<and>
           (last ws = ''endseq'' \<or> int (length (split_ws c) + length ws) \<ge> ml) \<and>
           (\<forall>i. Suc i < length ws \<longrightarrow>
              ws ! i \<noteq> ''endseq'' \<and> int (length (split_ws c) + Suc i) < ml)"
proof (induction "nat ml - length (split_ws c)" arbitrary: c rule: less_induct)
  case less
  let ?n = "length (split_ws c)"
  obtain padded where pad: "pad_sequences (texts_to_sequences tok c) ml = Inr padded"
    using pad_sequences_pos[OF ml] by blast
  obtain t ts k w where m: "model feat padded = t # ts" "argmax (last (t # ts)) = Inr k"
    "map_of (index_word tok) k = Some w"
    using model by blast
  have "(k, w) \<in> set (index_word tok)" using m(3) by (rule map_of_SomeD)
  then have w: "w \<noteq> []" "\<forall>c\<in>set w. \<not> is_space c" using words by auto
  let ?c' = "c @ '' '' @ w"
  have n': "length (split_ws ?c') = Suc ?n" using split_ws_append_word[OF w, of c] by simp
  note step = sample_loop_Suc[where model=model and feat=feat, OF pad m]
  show ?case
  proof (cases "w = ''endseq'' \<or> int (length (split_ws ?c')) \<ge> ml")
    case True
    have "sample_loop fuel model tok ml feat c =
            (if fuel < length [w] then None else Some (Inr (c @ concat (map ((#) CHR '' '') [w]))))" for fuel
      using step True by (cases fuel) simp_all
    moreover have "last [w] = ''endseq'' \<or> int (?n + length [w]) \<ge> ml"
      using True n' by auto
    ultimately show ?thesis by (intro exI[of _ "[w]"]) simp
  next
    case False
    then have lt: "int (Suc ?n) < ml" and ne: "w \<noteq> ''endseq''" using n' by auto
    then have "nat ml - length (split_ws ?c') < nat ml - ?n" using n' by linarith
    from less.hyps[OF this] obtain ws where ws: "ws \<noteq> []"
      "\<And>fuel. sample_loop fuel model tok ml feat ?c' =
              (if fuel < length ws then None
               else Some (Inr (?c' @ concat (map ((#) CHR '' '') ws))))"
      "last ws = ''endseq'' \<or> int (length (split_ws ?c') + length ws) \<ge> ml"
      "\<And>i. Suc i < length ws \<Longrightarrow>
              ws ! i \<noteq> ''endseq'' \<and> int (length (split_ws ?c') + Suc i) < ml"
      by blast
    have run: "sample_loop fuel model tok ml feat c =
            (if fuel < length (w # ws) then None
             else Some (Inr (c @ concat (map ((#) CHR '' '') (w # ws)))))" for fuel
    proof (cases fuel)
      case 0
      then show ?thesis by simp
    next
      case (Suc f)
      show ?thesis unfolding Suc step using False ws(2)[of f]
        by (simp only: concat_spaces_Cons if_False list.size) simp
    qed
    have stop: "last (w # ws) = ''endseq'' \<or> int (?n + length (w # ws)) \<ge> ml"
      using ws(1,3) n' by auto
    have early: "(w # ws) ! i \<noteq> ''endseq'' \<and> int (?n + Suc i) < ml" if "Suc i < length (w # ws)" for i
    proof (cases i)
      case 0
      then show ?thesis using ne lt by simp
    next
      case (Suc j)
      then show ?thesis using ws(4)[of j] that n' by simp
    qed
    show ?thesis using run stop early by (intro exI[of _ "w # ws"]) blast
  qed
qed

lemma sample_loop_Suc_Inr:
  assumes "sample_loop (Suc fuel) model tok ml feat c = Some (Inr raw)"
  obtains k w where "map_of (index_word tok) k = Some w"
    and "raw = c @ '' '' @ w \<or>
         (int (length (split_ws (c @ '' '' @ w))) < ml \<and>
          sample_loop fuel model tok ml feat (c @ '' '' @ w) = Some (Inr raw))"
  using assms
  by (auto simp: Let_def split: sum.splits list.splits option.splits if_splits)

lemma sample_loop_Inr:
  assumes words: "\<forall>(k, w)\<in>set (index_word tok). w \<noteq> [] \<and> (\<forall>c\<in>set w. \<not> is_space c)"
    and "sample_loop fuel model tok ml feat c = Some (Inr raw)"
  shows "\<exists>ws. ws \<noteq> [] \<and> raw = c @ concat (map ((#) CHR '' '') ws) \<and>
           (\<forall>w\<in>set ws. w \<noteq> [] \<and> (\<forall>c\<in>set w. \<not> is_space c)) \<and>
           (\<forall>i. Suc i < length ws \<longrightarrow> int (length (split_ws c) + Suc i) < ml)"
  using assms(2)
proof (induction fuel arbitrary: c)
  case 0
  then show ?case by simp
next
  case (Suc fuel)
  from Suc.prems obtain k w where kw: "map_of (index_word tok) k = Some w"
    and alt: "raw = c @ '' '' @ w \<or>
         (int (length (split_ws (c @ '' '' @ w))) < ml \<and>
          sample_loop fuel model tok ml feat (c @ '' '' @ w) = Some (Inr raw))"
    by (rule sample_loop_Suc_Inr)
  have "(k, w) \<in> set (index_word tok)" using kw by (rule map_of_SomeD)
  then have w: "w \<noteq> []" "\<forall>c\<in>set w. \<not> is_space c" using words by auto
  let ?c' = "c @ '' '' @ w"
  have n': "length (split_ws ?c') = Suc (length (split_ws c))"
    using split_ws_append_word[OF w, of c] by simp
  from alt show ?case
  proof
    assume "raw = ?c'"
    then show ?thesis using w by (intro exI[of _ "[w]"]) simp
  next
    assume rec: "int (length (split_ws ?c')) < ml \<and>
          sample_loop fuel model tok ml feat ?c' = Some (Inr raw)"
    from Suc.IH[of ?c'] rec obtain ws where ws: "ws \<noteq> []" "raw = ?c' @ concat (map ((#) CHR '' '') ws)"
      "\<forall>w\<in>set ws. w \<noteq> [] \<and> (\<forall>c\<in>set w. \<not> is_space c)"
      "\<And>i. Suc i < length ws \<Longrightarrow> int (length (split_ws ?c') + Suc i) < ml"
      by blast
    have early: "int (length (split_ws c) + Suc i) < ml" if "Suc i < length (w # ws)" for i
    proof (cases i)
      case 0
      then show ?thesis using rec n' by simp
    next
      case (Suc j)
      then show ?thesis using ws(4)[of j] that n' by simp
    qed
    show ?thesis using ws(2,3) w early by (intro exI[of _ "w # ws"]) auto
  qed
qed

lemma split_ws_concat_words:
  assumes "\<forall>w\<in>set ws. w \<noteq> [] \<and> (\<forall>c\<in>set w. \<not> is_space c)"
  shows "split_ws (c @ concat (map ((#) CHR '' '') ws)) = split_ws c @ ws"
  using assms
proof (induction ws arbitrary: c)
  case Nil
  show ?case by simp
next
  case (Cons w ws)
  have "split_ws ((c @ '' '' @ w) @ concat (map ((#) CHR '' '') ws)) = split_ws (c @ '' '' @ w) @ ws"
    using Cons.IH[of "c @ '' '' @ w"] Cons.prems by simp
  then show ?case using split_ws_append_word[of w c] Cons.prems by simp
qed

lemma split_ws_startseq: "split_ws ''startseq'' = [''startseq'']"
  by (simp add: split_ws_def char_eval)

lemma stripped_token_count:
  assumes ws: "ws \<noteq> []" "\<forall>w\<in>set ws. w \<noteq> [] \<and> (\<forall>c\<in>set w. \<not> is_space c)"
  shows "length (split_ws (str_replace '' endseq'' [] (str_replace ''startseq '' []
           (''startseq'' @ concat (map ((#) CHR '' '') ws))))) \<le> length ws"
proof -
  obtain w ws' where c: "ws = w # ws'" using ws(1) by (cases ws) auto
  let ?rest = "w @ concat (map ((#) CHR '' '') ws')"
  have raw: "''startseq'' @ concat (map ((#) CHR '' '') ws) = ''startseq '' @ ?rest"
    by (simp add: c)
  have "str_replace ''startseq '' [] (''startseq '' @ ?rest) = str_replace ''startseq '' [] ?rest"
    by (subst str_replace.simps) simp
  then have "length (split_ws (str_replace ''startseq '' [] (''startseq'' @ concat (map ((#) CHR '' '') ws))))
              \<le> length (split_ws ?rest)"
    unfolding raw using length_split_ws_str_replace[of "''startseq ''" ?rest] by simp
  also have "split_ws ?rest = split_ws w @ ws'"
    using split_ws_concat_words[of ws' w] ws(2) c by simp
  also have "split_ws w = [w]"
    using split_at_single[of w is_space] ws(2) c by (simp add: split_ws_def)
  finally have "length (split_ws (str_replace ''startseq '' [] (''startseq'' @ concat (map ((#) CHR '' '') ws))))
              \<le> length ws" using c by simp
  moreover have "length (split_ws (str_replace '' endseq'' [] x)) \<le> length (split_ws x)" for x
    by (rule length_split_ws_str_replace) simp
  ultimately show ?thesis by (meson le_trans)
qed

section \<open>Decoder: termination, length bound and stripping\<close>

text \<open>
  C2, as the code has it. When every word of the vocabulary is a single token and the
  arg-max of every model output is an id of the vocabulary, the decoding loop ends after
  \<open>length ws\<close> passes, at most \<open>max_length\<close> of them: \<open>ws\<close> are the words appended, the last
  one is the end sentinel or brings the token count to \<open>max_length\<close>, and no earlier pass
  did either. With less fuel the loop is still running; with at least \<open>max_length\<close> units
  \<^verbatim>\<open>sample_caption\<close> returns a caption.
\<close>

theorem decoding_terminates:
  assumes "\<forall>(k, w)\<in>set (index_word tokenizer). w \<noteq> [] \<and> (\<forall>c\<in>set w. \<not> is_space c)"
    and "\<forall>padded. \<exists>t ts k w. model feature padded = t # ts \<and> argmax (last (t # ts)) = Inr k \<and>
           map_of (index_word tokenizer) k = Some w"
    and "0 < max_length"
  shows "\<exists>ws. ws \<noteq> [] \<and> int (length ws) \<le> max_length \<and>
           (\<forall>fuel. sample_loop fuel model tokenizer max_length feature ''startseq'' =
              (if fuel < length ws then None
               else Some (Inr (''startseq'' @ concat (map ((#) CHR '' '') ws))))) \<and>
           (last ws = ''endseq'' \<or> int (1 + length ws) \<ge> max_length) \<and>
           (\<forall>i. Suc i < length ws \<longrightarrow> ws ! i \<noteq> ''endseq'' \<and> int (1 + Suc i) < max_length) \<and>
           (\<forall>fuel \<ge> nat max_length. \<exists>caption.
              sample_caption fuel model tokenizer max_length vocab_size feature = Some (Inr caption))"
proof -
  from sample_loop_run[where model=model and feat=feature and c="''startseq''", OF assms] obtain ws where ws: "ws \<noteq> []"
    "\<And>fuel. sample_loop fuel model tokenizer max_length feature ''startseq'' =
              (if fuel < length ws then None
               else Some (Inr (''startseq'' @ concat (map ((#) CHR '' '') ws))))"
    "last ws = ''endseq'' \<or> int (length (split_ws ''startseq'') + length ws) \<ge> max_length"
    "\<And>i. Suc i < length ws \<Longrightarrow>
              ws ! i \<noteq> ''endseq'' \<and> int (length (split_ws ''startseq'') + Suc i) < max_length"
    by blast
  have len: "int (length ws) \<le> max_length"
  proof (cases "length ws")
    case 0
    then show ?thesis using ws(1) by simp
  next
    case (Suc m)
    show ?thesis
    proof (cases m)
      case 0
      then show ?thesis using Suc assms(3) by simp
    next
      case (Suc i)
      then have "Suc i < length ws" using \<open>length ws = Suc m\<close> by simp
      from ws(4)[OF this] show ?thesis using Suc \<open>length ws = Suc m\<close> by simp
    qed
  qed
  have "\<exists>caption. sample_caption fuel model tokenizer max_length vocab_size feature = Some (Inr caption)"
    if "fuel \<ge> nat max_length" for fuel
  proof -
    have "\<not> fuel < length ws" using that len by linarith
    then show ?thesis using ws(2)[of fuel] by (simp add: sample_caption_def Let_def)
  qed
  then show ?thesis using ws len by (intro exI[of _ ws]) (simp add: split_ws_startseq)
qed

text \<open>
  C3, as the code has it. When every word of the vocabulary is a single token and
  \<open>max_length\<close> is at least 2, a caption returned by \<^verbatim>\<open>sample_caption\<close> has at most
  \<open>max_length - 1\<close> tokens.
\<close>

theorem caption_length_bound:
  assumes "\<forall>(k, w)\<in>set (index_word tokenizer). w \<noteq> [] \<and> (\<forall>c\<in>set w. \<not> is_space c)"
    and "2 \<le> max_length"
    and "sample_caption fuel model tokenizer max_length vocab_size feature = Some (Inr caption)"
  shows "int (length (split_ws caption)) \<le> max_length - 1"
proof -
  from assms(3) obtain raw where raw:
    "sample_loop fuel model tokenizer max_length feature ''startseq'' = Some (Inr raw)"
    and cap: "caption = str_replace '' endseq'' [] (str_replace ''startseq '' [] raw)"
    by (auto simp: sample_caption_def Let_def split: option.splits sum.splits)
  from sample_loop_Inr[where model=model and feat=feature, OF assms(1) raw] obtain ws where ws: "ws \<noteq> []"
    "raw = ''startseq'' @ concat (map ((#) CHR '' '') ws)"
    "\<forall>w\<in>set ws. w \<noteq> [] \<and> (\<forall>c\<in>set w. \<not> is_space c)"
    "\<And>i. Suc i < length ws \<Longrightarrow> int (length (split_ws ''startseq'') + Suc i) < max_length"
    by blast
  have "length (split_ws caption) \<le> length ws"
    unfolding cap ws(2) by (rule stripped_token_count[OF ws(1,3)])
  moreover have "int (length ws) \<le> max_length - 1"
  proof (cases "length ws")
    case 0
    then show ?thesis using assms(2) by simp
  next
    case (Suc m)
    show ?thesis
    proof (cases m)
      case 0
      then show ?thesis using Suc assms(2) by simp
    next
      case (Suc i)
      then have "Suc i < length ws" using \<open>length ws = Suc m\<close> by simp
      from ws(4)[OF this] show ?thesis
        using Suc \<open>length ws = Suc m\<close> by (simp add: split_ws_startseq)
    qed
  qed
  ultimately show ?thesis by linarith
qed

text \<open>
  C4 fails on the code. When the first pass selects the end sentinel, the caption at the
  \<^verbatim>\<open>break\<close> is \<^verbatim>\<open>"startseq endseq"\<close>; removing \<^verbatim>\<open>"startseq "\<close> leaves \<^verbatim>\<open>"endseq"\<close>, in which
  \<^verbatim>\<open>" endseq"\<close> does not occur, so \<^verbatim>\<open>sample_caption\<close> returns \<^verbatim>\<open>"endseq"\<close> and not the empty
  string.
\<close>

theorem first_endseq_returns_endseq:
  assumes "pad_sequences (texts_to_sequences tokenizer ''startseq'') max_length = Inr padded"
    and "model feature padded = t # ts"
    and "argmax (last (t # ts)) = Inr k"
    and "map_of (index_word tokenizer) k = Some ''endseq''"
  shows "sample_caption (Suc fuel) model tokenizer max_length vocab_size feature = Some (Inr ''endseq'')"
proof -
  have l: "sample_loop (Suc fuel) model tokenizer max_length feature ''startseq'' =
        Some (Inr ''startseq endseq'')"
    using sample_loop_Suc[where model=model and feat=feature, OF assms] by simp
  have r1: "str_replace ''startseq '' [] ''startseq endseq'' = ''endseq''"
    by (simp add: str_replace.simps)
  have r2: "str_replace '' endseq'' [] ''endseq'' = ''endseq''"
    by (simp add: str_replace.simps)
  show ?thesis by (simp only: sample_caption_def l option.case sum.case Let_def r1 r2)
qed

subsection \<open>Concrete decoding runs\<close>

lemma sample_words_single:
  "\<forall>(k, w)\<in>set (index_word sample_tokenizer). w \<noteq> [] \<and> (\<forall>c\<in>set w. \<not> is_space c)"
  by (simp add: sample_tokenizer_eq char_eval)

lemma sample_startseq_padded:
  "pad_sequences (texts_to_sequences sample_tokenizer ''startseq'') 3 = Inr [0, 0, 1]"
proof -
  have "texts_to_sequences sample_tokenizer ''startseq'' = [1]"
    by (simp add: sample_tokenizer_eq texts_to_sequences_def text_to_word_sequence_def char_eval)
  moreover have "replicate 2 (0::nat) = [0, 0]" by (simp add: numeral_2_eq_2)
  ultimately show ?thesis by (simp add: pad_sequences_def)
qed

lemma sample_startseq_dog_padded:
  "pad_sequences (texts_to_sequences sample_tokenizer ''startseq dog'') 3 = Inr [0, 1, 2]"
  by (simp add: sample_tokenizer_eq texts_to_sequences_def text_to_word_sequence_def char_eval
      pad_sequences_def)

lemma sample_index_word:
  "map_of (index_word sample_tokenizer) 0 = None"
  "map_of (index_word sample_tokenizer) 2 = Some ''dog''"
  "map_of (index_word sample_tokenizer) 4 = Some ''endseq''"
  by (simp_all add: sample_tokenizer_eq)

lemma argmax_examples:
  "argmax (last [[1, 0, 0, 0, 0 :: nat]]) = Inr 0"
  "argmax (last [[0, 0, 1, 0, 0 :: nat]]) = Inr 2"
  "argmax (last [[0, 0, 0, 0, 1 :: nat]]) = Inr 4"
  by (simp_all add: argmax_def)

lemma always_dog_loop:
  "sample_loop (Suc (Suc fuel)) (\<lambda>feature padded. [[0, 0, 1, 0, 0 :: nat]]) sample_tokenizer 3 ()
     ''startseq'' = Some (Inr ''startseq dog dog'')"
proof -
  let ?model = "\<lambda>(feature::unit) (padded::nat list). [[0, 0, 1, 0, 0 :: nat]]"
  have m: "?model () p = [0, 0, 1, 0, 0] # []" for p by simp
  have t1: "length (split_ws ''startseq dog'') = 2" "length (split_ws ''startseq dog dog'') = 3"
    by (simp_all add: split_ws_def char_eval)
  have s1: "sample_loop (Suc (Suc fuel)) ?model sample_tokenizer 3 () ''startseq'' =
            sample_loop (Suc fuel) ?model sample_tokenizer 3 () ''startseq dog''"
    using sample_loop_Suc[where model="?model" and feat="()", OF sample_startseq_padded m
        argmax_examples(2) sample_index_word(2), of "Suc fuel"] t1
    by simp
  have s2: "sample_loop (Suc fuel) ?model sample_tokenizer 3 () ''startseq dog'' =
            Some (Inr ''startseq dog dog'')"
    using sample_loop_Suc[where model="?model" and feat="()", OF sample_startseq_dog_padded m
        argmax_examples(2) sample_index_word(2), of fuel] t1
    by simp
  show ?thesis by (simp only: s1 s2)
qed

lemma always_dog_run:
  "sample_caption 3 (\<lambda>feature padded. [[0, 0, 1, 0, 0 :: nat]]) sample_tokenizer 3 5 () =
     Some (Inr ''dog dog'')"
proof -
  have r1: "str_replace ''startseq '' [] ''startseq dog dog'' = ''dog dog''"
    by (simp add: str_replace.simps)
  have r2: "str_replace '' endseq'' [] ''dog dog'' = ''dog dog''"
    by (simp add: str_replace.simps)
  have f: "(3::nat) = Suc (Suc (Suc 0))" by simp
  show ?thesis
    by (simp only: sample_caption_def f always_dog_loop option.case sum.case Let_def r1 r2)
qed

theorem caption_length_bound_witness:
  "sample_caption 3 (\<lambda>feature padded. [[0, 0, 1, 0, 0 :: nat]]) sample_tokenizer 3 5 () =
     Some (Inr ''dog dog'') \<and>
   int (length (split_ws ''dog dog'')) \<le> 3 - 1"
  using caption_length_bound[OF sample_words_single _ always_dog_run] always_dog_run by simp

text \<open>
  C3 as stated fails: with \<open>max_length = 3\<close> and a model that never selects the end
  sentinel the returned caption has 2 tokens, more than \<open>max_length - 2\<close>.
\<close>

theorem caption_length_counterexample:
  "sample_caption 3 (\<lambda>feature padded. [[0, 0, 1, 0, 0 :: nat]]) sample_tokenizer 3 5 () =
     Some (Inr ''dog dog'') \<and>
   length (split_ws ''dog dog'') = 2 \<and> \<not> (int (length (split_ws ''dog dog'')) \<le> 3 - 2)"
proof -
  have "length (split_ws ''dog dog'') = 2" by (simp add: split_ws_def char_eval)
  then show ?thesis using always_dog_run by simp
qed

text \<open>
  C2 as stated fails: a model output whose arg-max is the id 0 ends the loop in its first
  pass with a \<^verbatim>\<open>KeyError\<close>, before the end sentinel is selected and with 1 token of the 3
  that \<open>max_length\<close> asks for.
\<close>

theorem decoding_unknown_id_counterexample:
  "argmax (last [[1, 0, 0, 0, 0 :: nat]]) = Inr 0 \<and>
   map_of (index_word sample_tokenizer) 0 = None \<and>
   sample_loop 3 (\<lambda>feature padded. [[1, 0, 0, 0, 0 :: nat]]) sample_tokenizer 3 () ''startseq'' =
     Some (Inl KeyError) \<and>
   sample_caption 3 (\<lambda>feature padded. [[1, 0, 0, 0, 0 :: nat]]) sample_tokenizer 3 5 () =
     Some (Inl KeyError)"
proof -
  have f: "(3::nat) = Suc 2" by simp
  have l: "sample_loop 3 (\<lambda>feature padded. [[1, 0, 0, 0, 0 :: nat]]) sample_tokenizer 3 () ''startseq'' =
     Some (Inl KeyError)"
    unfolding f sample_loop.simps
    by (simp only: Let_def sample_startseq_padded sum.case list.case argmax_examples
        sample_index_word option.case)
  show ?thesis
    by (simp only: sample_caption_def l argmax_examples sample_index_word option.case sum.case)
qed

theorem decoding_terminates_witness:
  "\<exists>ws. ws \<noteq> [] \<and> int (length ws) \<le> 3 \<and>
     (\<forall>fuel. sample_loop fuel (\<lambda>feature padded. [[0, 0, 1, 0, 0 :: nat]]) sample_tokenizer 3 ()
                ''startseq'' =
        (if fuel < length ws then None
         else Some (Inr (''startseq'' @ concat (map ((#) CHR '' '') ws))))) \<and>
     (last ws = ''endseq'' \<or> int (1 + length ws) \<ge> 3) \<and>
     (\<forall>i. Suc i < length ws \<longrightarrow> ws ! i \<noteq> ''endseq'' \<and> int (1 + Suc i) < 3) \<and>
     (\<forall>fuel \<ge> nat 3. \<exists>caption.
        sample_caption fuel (\<lambda>feature padded. [[0, 0, 1, 0, 0 :: nat]]) sample_tokenizer 3 5 () =
          Some (Inr caption))"
proof -
  have m: "\<forall>padded. \<exists>t ts k w.
      (\<lambda>(feature::unit) (padded::nat list). [[0, 0, 1, 0, 0 :: nat]]) () padded = t # ts \<and>
      argmax (last (t # ts)) = Inr k \<and> map_of (index_word sample_tokenizer) k = Some w"
    using argmax_examples(2) sample_index_word(2) by auto
  show ?thesis
    by (rule decoding_terminates[where model="\<lambda>(feature::unit) (padded::nat list). [[0, 0, 1, 0, 0 :: nat]]"
          and feature="()", OF sample_words_single m]) simp
qed

theorem first_endseq_returns_endseq_witness:
  "sample_caption (Suc 0) (\<lambda>feature padded. [[0, 0, 0, 0, 1 :: nat]]) sample_tokenizer 3 5 () =
     Some (Inr ''endseq'') \<and> ''endseq'' \<noteq> []"
proof -
  let ?model = "\<lambda>(feature::unit) (padded::nat list). [[0, 0, 0, 0, 1 :: nat]]"
  have m: "?model () [0, 0, 1] = [0, 0, 0, 0, 1] # []" by simp
  show ?thesis
    using first_endseq_returns_endseq[where model="?model" and feature="()",
        OF sample_startseq_padded m argmax_examples(3) sample_index_word(3), of 0 5]
    by simp
qed

end
